theory Spec2Isabelle
  imports Main "HOL-Library.Char_ord" "HOL-Library.List_Lexorder" "HOL-Library.Multiset"
begin

section \<open>Python strings\<close>

text \<open>
  A Python \<open>str\<close> is modelled as a \<open>string\<close>, one \<open>char\<close> per code point; the
  model covers the code points 0..255. \<open>isspace\<close> lists the code points of that range
  for which \<open>str.isspace\<close> holds; \<open>str.strip()\<close> and \<open>str.split()\<close> use the same set.
\<close>

definition isspace :: "char \<Rightarrow> bool" where
  "isspace c = (c \<in> set [CHR 0x09, CHR 0x0A, CHR 0x0B, CHR 0x0C, CHR 0x0D,
                           CHR 0x1C, CHR 0x1D, CHR 0x1E, CHR 0x1F, CHR 0x20,
                           CHR 0x85, CHR 0xA0])"

definition lstrip :: "string \<Rightarrow> string" where
  "lstrip s = dropWhile isspace s"

definition rstrip :: "string \<Rightarrow> string" where
  "rstrip s = rev (dropWhile isspace (rev s))"

definition strip :: "string \<Rightarrow> string" where
  "strip s = rstrip (lstrip s)"

definition startswith :: "string \<Rightarrow> string \<Rightarrow> bool" where
  "startswith s p = (take (length p) s = p)"

definition endswith :: "string \<Rightarrow> string \<Rightarrow> bool" where
  "endswith s p = (length p \<le> length s \<and> drop (length s - length p) s = p)"

text \<open>\<open>s.rstrip(c)\<close> for a single character \<open>c\<close>.\<close>

definition rstrip_char :: "char \<Rightarrow> string \<Rightarrow> string" where
  "rstrip_char c s = rev (dropWhile (\<lambda>x. x = c) (rev s))"

text \<open>\<open>s.replace(c, t)\<close> for a single character \<open>c\<close>.\<close>

definition replace_char :: "char \<Rightarrow> string \<Rightarrow> string \<Rightarrow> string" where
  "replace_char c t s = concat (map (\<lambda>x. if x = c then t else [x]) s)"

abbreviation backslash :: char where
  "backslash \<equiv> CHR 0x5C"

section \<open>patterns.py\<close>

subsection \<open>The regular expressions of Python's re module\<close>

text \<open>
  \<open>compile_pattern\<close> hands a regular expression, as text, to \<open>re.compile\<close> and later
  asks \<open>regex.match(path)\<close>. The library is modelled for the dialect \<open>compile_pattern\<close>
  writes: the anchors \<open>^\<close> and \<open>$\<close>, groups with alternatives, \<open>.\<close>, a \<open>*\<close> after a
  one-character atom, character sets \<open>[...]\<close> with ranges and negation, and literal
  characters, plain or escaped by a backslash. No flag is set: \<open>.\<close> does not match a
  newline, and \<open>$\<close> matches at the end of the text and before a newline that ends it.
  A construct outside the dialect is reported as \<open>Unsupported\<close>; the other errors are
  those \<open>re.compile\<close> raises as \<open>re.error\<close>.
\<close>

datatype re_error =
    BadEscapeEnd
  | UnterminatedSet
  | BadCharacterRange
  | NothingToRepeat
  | MultipleRepeat
  | UnbalancedParenthesis
  | UnterminatedSubpattern
  | Unsupported

text \<open>The tokenizer reads a backslash together with the character after it.\<close>

datatype re_unit = Raw char | Esc char

fun re_lex :: "string \<Rightarrow> re_error + re_unit list" where
  "re_lex [] = Inr []"
| "re_lex (c # s) =
     (if c = backslash then
        (case s of
           [] \<Rightarrow> Inl BadEscapeEnd
         | d # s' \<Rightarrow> (case re_lex s' of Inl e \<Rightarrow> Inl e | Inr us \<Rightarrow> Inr (Esc d # us)))
      else (case re_lex s of Inl e \<Rightarrow> Inl e | Inr us \<Rightarrow> Inr (Raw c # us)))"

definition ascii_alnum :: "char \<Rightarrow> bool" where
  "ascii_alnum c = ((CHR ''a'' \<le> c \<and> c \<le> CHR ''z'') \<or> (CHR ''A'' \<le> c \<and> c \<le> CHR ''Z'')
                    \<or> (CHR ''0'' \<le> c \<and> c \<le> CHR ''9''))"

text \<open>
  The character a unit stands for. A backslash before an ASCII letter or digit is a
  category, a special escape, a back reference or an error: outside the dialect.
\<close>

fun unit_code :: "re_unit \<Rightarrow> char option" where
  "unit_code (Raw c) = Some c"
| "unit_code (Esc c) = (if ascii_alnum c then None else Some c)"

datatype re_atom = RAny | RLit char | RSet bool "(char \<times> char) list"

datatype regex =
    REmpty
  | RChar re_atom
  | RStar re_atom
  | RBol
  | REol
  | RSeq regex regex
  | RAlt regex regex

text \<open>
  The members of a character set, read after \<open>[\<close> and an optional \<open>^\<close>. A \<open>]\<close> closes
  the set unless it is its first member. \<open>a-b\<close> is a range, an error when \<open>b\<close> comes
  before \<open>a\<close>; a \<open>-\<close> right before the closing \<open>]\<close> is a member. The result is the list
  of ranges (a single character \<open>c\<close> as \<open>(c, c)\<close>) and the units after the closing \<open>]\<close>.
\<close>

fun re_set_items :: "(char \<times> char) list \<Rightarrow> re_unit list
    \<Rightarrow> re_error + ((char \<times> char) list \<times> re_unit list)" where
  "re_set_items acc [] = Inl UnterminatedSet"
| "re_set_items acc (u # us) =
     (if u = Raw CHR '']'' \<and> acc \<noteq> [] then Inr (rev acc, us)
      else
        (case unit_code u of
           None \<Rightarrow> Inl Unsupported
         | Some lo \<Rightarrow>
             (case us of
                [] \<Rightarrow> Inl UnterminatedSet
              | v # vs \<Rightarrow>
                  if v = Raw CHR ''-'' then
                    (case vs of
                       [] \<Rightarrow> Inl UnterminatedSet
                     | w # ws \<Rightarrow>
                         if w = Raw CHR '']'' then
                           Inr (rev ((CHR ''-'', CHR ''-'') # (lo, lo) # acc), ws)
                         else
                           (case unit_code w of
                              None \<Rightarrow> Inl Unsupported
                            | Some hi \<Rightarrow>
                                if hi < lo then Inl BadCharacterRange
                                else re_set_items ((lo, hi) # acc) ws))
                  else re_set_items ((lo, lo) # acc) us)))"

definition re_set :: "re_unit list \<Rightarrow> re_error + (re_atom \<times> re_unit list)" where
  "re_set us =
     (let negate = (us \<noteq> [] \<and> hd us = Raw CHR ''^'');
          body = (if negate then tl us else us)
      in case re_set_items [] body of
           Inl e \<Rightarrow> Inl e
         | Inr (items, rest) \<Rightarrow> Inr (RSet negate items, rest))"

lemma re_set_items_shorter:
  "re_set_items acc us = Inr (items, rest) \<Longrightarrow> length rest < length us"
proof (induction us arbitrary: acc items rest rule: length_induct)
  case (1 us)
  note IH = "1.IH" [rule_format]
  show ?case
  proof (cases us)
    case Nil
    with "1.prems" show ?thesis by simp
  next
    case (Cons u us')
    note us = Cons
    show ?thesis
    proof (cases "u = Raw CHR '']'' \<and> acc \<noteq> []")
      case True
      with "1.prems" us show ?thesis by simp
    next
      case notclose: False
      with "1.prems" us obtain lo where lo: "unit_code u = Some lo"
        by (cases "unit_code u") auto
      show ?thesis
      proof (cases us')
        case Nil
        with "1.prems" us notclose lo show ?thesis by simp
      next
        case (Cons v vs)
        note us' = Cons
        show ?thesis
        proof (cases "v = Raw CHR ''-''")
          case False
          with "1.prems" us us' notclose lo
          have "re_set_items ((lo, lo) # acc) us' = Inr (items, rest)" by simp
          then have "length rest < length us'" using IH [of us'] us by simp
          then show ?thesis using us by simp
        next
          case dash: True
          show ?thesis
          proof (cases vs)
            case Nil
            with "1.prems" us us' notclose lo dash show ?thesis by simp
          next
            case (Cons w ws)
            note vs = Cons
            show ?thesis
            proof (cases "w = Raw CHR '']''")
              case True
              with "1.prems" us us' vs notclose lo dash show ?thesis by simp
            next
              case wnot: False
              with "1.prems" us us' vs notclose lo dash obtain hi
                where hi: "unit_code w = Some hi" by (cases "unit_code w") auto
              from "1.prems" us us' vs notclose lo dash wnot hi
              have "re_set_items ((lo, hi) # acc) ws = Inr (items, rest)"
                by (simp split: if_splits)
              then have "length rest < length ws" using IH [of ws] us us' vs by simp
              then show ?thesis using us us' vs by simp
            qed
          qed
        qed
      qed
    qed
  qed
qed

lemma re_set_shorter:
  "re_set us = Inr (a, rest) \<Longrightarrow> length rest \<le> length us"
proof -
  assume h: "re_set us = Inr (a, rest)"
  define body where "body = (if us \<noteq> [] \<and> hd us = Raw CHR ''^'' then tl us else us)"
  from h obtain items where "re_set_items [] body = Inr (items, rest)"
    unfolding re_set_def Let_def body_def by (auto split: sum.splits)
  then have "length rest < length body" by (rule re_set_items_shorter)
  moreover have "length body \<le> length us" unfolding body_def by simp
  ultimately show ?thesis by simp
qed

text \<open>
  A sequence of items, and the alternatives of a group (or of the whole expression).
\<close>

definition seq_of :: "regex list \<Rightarrow> regex" where
  "seq_of items = foldr RSeq items REmpty"

fun alt_of :: "regex list \<Rightarrow> regex" where
  "alt_of [] = REmpty"
| "alt_of [b] = b"
| "alt_of (b # bs) = RAlt b (alt_of bs)"

text \<open>
  \<open>close_group cur alts\<close>: the group whose last branch has the items \<open>cur\<close> (latest
  first) and whose earlier branches are \<open>alts\<close> (latest first).
\<close>

definition close_group :: "regex list \<Rightarrow> regex list \<Rightarrow> regex" where
  "close_group cur alts = alt_of (rev (seq_of (rev cur) # alts))"

text \<open>
  The parser reads the units from left to right. \<open>cur\<close> holds the items of the branch
  being read and \<open>alts\<close> the finished branches of the group being read, both latest
  first; \<open>stack\<close> holds the same two lists for every group that is still open around it.
\<close>

function re_parse :: "regex list \<Rightarrow> regex list \<Rightarrow> (regex list \<times> regex list) list
    \<Rightarrow> re_unit list \<Rightarrow> re_error + regex" where
  "re_parse cur alts stack [] =
     (if stack = [] then Inr (close_group cur alts) else Inl UnterminatedSubpattern)"
| "re_parse cur alts stack (Esc c # us) =
     (if ascii_alnum c then Inl Unsupported
      else re_parse (RChar (RLit c) # cur) alts stack us)"
| "re_parse cur alts stack (Raw c # us) =
     (if c = CHR ''.'' then re_parse (RChar RAny # cur) alts stack us
      else if c = CHR ''^'' then re_parse (RBol # cur) alts stack us
      else if c = CHR ''$'' then re_parse (REol # cur) alts stack us
      else if c = CHR ''*'' then
        (case cur of
           [] \<Rightarrow> Inl NothingToRepeat
         | RChar a # items \<Rightarrow> re_parse (RStar a # items) alts stack us
         | RStar a # items \<Rightarrow> Inl MultipleRepeat
         | RBol # items \<Rightarrow> Inl NothingToRepeat
         | REol # items \<Rightarrow> Inl NothingToRepeat
         | _ # items \<Rightarrow> Inl Unsupported)
      else if c = CHR ''['' then
        (case re_set us of
           Inl e \<Rightarrow> Inl e
         | Inr (a, rest) \<Rightarrow> re_parse (RChar a # cur) alts stack rest)
      else if c = CHR ''('' then
        (if us \<noteq> [] \<and> hd us = Raw CHR ''?'' then Inl Unsupported
         else re_parse [] [] ((cur, alts) # stack) us)
      else if c = CHR ''|'' then re_parse [] (seq_of (rev cur) # alts) stack us
      else if c = CHR '')'' then
        (case stack of
           [] \<Rightarrow> Inl UnbalancedParenthesis
         | (cur', alts') # stack' \<Rightarrow> re_parse (close_group cur alts # cur') alts' stack' us)
      else if c = CHR ''+'' \<or> c = CHR ''?'' \<or> c = CHR ''{'' then Inl Unsupported
      else re_parse (RChar (RLit c) # cur) alts stack us)"
  by pat_completeness auto
termination
  apply (relation "measure (\<lambda>(cur, alts, stack, us). length us)")
  apply simp_all
  apply clarify
  apply (drule re_set_shorter)
  apply simp
  done

text \<open>\<open>re.compile(rx)\<close>.\<close>

definition re_compile :: "string \<Rightarrow> re_error + regex" where
  "re_compile rx = (case re_lex rx of Inl e \<Rightarrow> Inl e | Inr us \<Rightarrow> re_parse [] [] [] us)"

text \<open>
  Matching. A state is the position reached in the text and the text still ahead.
  \<open>re_ends r st\<close> lists the states in which a match of \<open>r\<close> that starts in \<open>st\<close> can end.
  The library searches by backtracking through all of them (no construct of the
  dialect cuts the search), so \<open>regex.match(s)\<close> finds a match exactly when some end
  state exists.
\<close>

fun atom_ok :: "re_atom \<Rightarrow> char \<Rightarrow> bool" where
  "atom_ok RAny c = (c \<noteq> CHR 0x0A)"
| "atom_ok (RLit d) c = (c = d)"
| "atom_ok (RSet negate items) c = (list_ex (\<lambda>(lo, hi). lo \<le> c \<and> c \<le> hi) items \<noteq> negate)"

fun star_ends :: "re_atom \<Rightarrow> nat \<Rightarrow> string \<Rightarrow> (nat \<times> string) list" where
  "star_ends a i [] = [(i, [])]"
| "star_ends a i (c # cs) = (i, c # cs) # (if atom_ok a c then star_ends a (Suc i) cs else [])"

fun re_ends :: "regex \<Rightarrow> nat \<times> string \<Rightarrow> (nat \<times> string) list" where
  "re_ends REmpty st = [st]"
| "re_ends (RChar a) (i, s) =
     (case s of [] \<Rightarrow> [] | c # cs \<Rightarrow> if atom_ok a c then [(Suc i, cs)] else [])"
| "re_ends (RStar a) (i, s) = star_ends a i s"
| "re_ends RBol (i, s) = (if i = 0 then [(i, s)] else [])"
| "re_ends REol (i, s) = (if s = [] \<or> s = [CHR 0x0A] then [(i, s)] else [])"
| "re_ends (RSeq a b) st = concat (map (re_ends b) (re_ends a st))"
| "re_ends (RAlt a b) st = re_ends a st @ re_ends b st"

text \<open>\<open>bool(regex.match(s))\<close>: a match that starts at position 0.\<close>

definition re_match :: "regex \<Rightarrow> string \<Rightarrow> bool" where
  "re_match r s = (re_ends r (0, s) \<noteq> [])"

text \<open>
  \<open>re.escape\<close> of one character: a backslash before the characters that can have a
  special meaning in a regular expression.
\<close>

definition re_escape :: "char \<Rightarrow> string" where
  "re_escape c =
     (if c \<in> set (''()[]{}?*+-|^$.&~# '' @ [backslash, CHR 0x09, CHR 0x0A, CHR 0x0D, CHR 0x0B, CHR 0x0C])
      then [backslash, c] else [c])"

subsection \<open>Patterns\<close>

text \<open>
  \<open>PatternSyntaxError\<close>, by the place that raises it: the pattern is empty, it points to
  the repository root, or \<open>re.compile\<close> refused the translation of the raw pattern.
\<close>

datatype PatternSyntaxError =
    EmptyPattern
  | RepoRootPattern
  | InvalidPattern string re_error

record CompiledPattern =
  raw :: string
  normalized :: string
  regex :: regex

text \<open>The method \<open>CompiledPattern.matches\<close>.\<close>

definition CompiledPattern_matches :: "CompiledPattern \<Rightarrow> string \<Rightarrow> bool" where
  "CompiledPattern_matches cp path = re_match (regex cp) path"

text \<open>The loop \<open>while pat.startswith("./"): pat = pat[2:]\<close>.\<close>

fun strip_dot_slash :: "string \<Rightarrow> string" where
  "strip_dot_slash (a # b # pat) =
     (if a = CHR ''.'' \<and> b = CHR ''/'' then strip_dot_slash pat else a # b # pat)"
| "strip_dot_slash pat = pat"

definition normalize_pattern :: "string \<Rightarrow> PatternSyntaxError + string" where
  "normalize_pattern pat0 =
     (let pat1 = strip pat0 in
      if pat1 = [] then Inl EmptyPattern
      else
        let pat2 = replace_char backslash ''/'' pat1;
            pat3 = strip_dot_slash pat2;
            pat4 = (if startswith pat3 ''/'' then drop 1 pat3 else pat3)
        in if pat4 = [] then Inl RepoRootPattern
           else if endswith pat4 ''/'' then Inr (rstrip_char CHR ''/'' pat4 @ ''/**'')
           else Inr pat4)"

text \<open>
  \<open>_glob_to_regex\<close>. The loop runs an index over the pattern and only looks ahead, so
  the model recurs on the rest of the pattern from the index on. In the branch of
  \<open>[\<close>, \<open>j\<close> counts from the character after the bracket.
\<close>

function glob_to_regex :: "string \<Rightarrow> string" where
  "glob_to_regex [] = []"
| "glob_to_regex (c # rest) =
     (if c = CHR ''*'' then
        (if rest \<noteq> [] \<and> hd rest = CHR ''*''
         then ''.*'' @ glob_to_regex (dropWhile (\<lambda>x. x = CHR ''*'') rest)
         else ''[^/]*'' @ glob_to_regex rest)
      else if c = CHR ''?'' then ''[^/]'' @ glob_to_regex rest
      else if c = CHR ''['' then
        (let j0 = (if rest \<noteq> [] \<and> (hd rest = CHR ''!'' \<or> hd rest = CHR ''^'') then 1 else 0);
             j = j0 + length (takeWhile (\<lambda>x. x \<noteq> CHR '']'') (drop j0 rest))
         in if j \<ge> length rest then re_escape c @ glob_to_regex rest
            else
              (let inner = take j rest;
                   inner1 = (if startswith inner ''!'' then CHR ''^'' # drop 1 inner else inner);
                   inner2 = replace_char backslash [backslash, backslash] inner1
               in ''['' @ inner2 @ '']'' @ glob_to_regex (drop (Suc j) rest)))
      else re_escape c @ glob_to_regex rest)"
  by pat_completeness auto
termination
  by (relation "measure length")
     (auto simp: less_Suc_eq_le length_dropWhile_le)

definition compile_pattern :: "string \<Rightarrow> PatternSyntaxError + CompiledPattern" where
  "compile_pattern pattern =
     (case normalize_pattern pattern of
        Inl e \<Rightarrow> Inl e
      | Inr norm \<Rightarrow>
          (let body = glob_to_regex norm;
               rx = (if CHR ''/'' \<in> set norm then ''^'' @ body @ ''$''
                     else ''(^|.*/)'' @ body @ ''$'')
           in case re_compile rx of
                Inl e \<Rightarrow> Inl (InvalidPattern pattern e)
              | Inr r \<Rightarrow> Inr \<lparr>raw = pattern, normalized = norm, regex = r\<rparr>))"

section \<open>serviceowners_file.py\<close>

record Rule =
  pattern :: string
  service :: string
  line :: int
  source :: string
  compiled :: CompiledPattern

text \<open>
  \<open>_strip_inline_comment\<close>. \<open>seen\<close> is \<open>line[:i]\<close>, the part of the line before the
  character \<open>ch\<close> the loop looks at.
\<close>

fun strip_inline_comment_loop :: "bool \<Rightarrow> string \<Rightarrow> string \<Rightarrow> string" where
  "strip_inline_comment_loop in_quote seen [] = rstrip seen"
| "strip_inline_comment_loop in_quote seen (ch # rest) =
     (let in_quote1 = (if ch = CHR 0x27 \<or> ch = CHR 0x22 then \<not> in_quote else in_quote)
      in if ch = CHR ''#'' \<and> \<not> in_quote1 \<and> (seen = [] \<or> isspace (last seen))
         then rstrip seen
         else strip_inline_comment_loop in_quote1 (seen @ [ch]) rest)"

definition strip_inline_comment :: "string \<Rightarrow> string" where
  "strip_inline_comment ln = strip_inline_comment_loop False [] ln"

text \<open>
  \<open>str.splitlines()\<close>: a line ends at \<open>\n\<close>, \<open>\r\<close>, \<open>\r\n\<close>, \<open>\v\<close>, \<open>\f\<close>, the
  separators 0x1C to 0x1E and 0x85; the line ends are dropped, and no empty line
  follows the last line end. \<open>cur\<close> is the line being read.
\<close>

fun splitlines_from :: "string \<Rightarrow> string \<Rightarrow> string list" where
  "splitlines_from cur [] = (if cur = [] then [] else [cur])"
| "splitlines_from cur (c # cs) =
     (if c = CHR 0x0D then
        (case cs of
           [] \<Rightarrow> [cur]
         | d # ds \<Rightarrow> if d = CHR 0x0A then cur # splitlines_from [] ds
                     else cur # splitlines_from [] (d # ds))
      else if c \<in> set [CHR 0x0A, CHR 0x0B, CHR 0x0C, CHR 0x1C, CHR 0x1D, CHR 0x1E, CHR 0x85]
      then cur # splitlines_from [] cs
      else splitlines_from (cur @ [c]) cs)"

definition splitlines :: "string \<Rightarrow> string list" where
  "splitlines text = splitlines_from [] text"

text \<open>\<open>str.split()\<close>: the maximal runs of characters that are not whitespace.\<close>

fun split_from :: "string \<Rightarrow> string \<Rightarrow> string list" where
  "split_from cur [] = (if cur = [] then [] else [cur])"
| "split_from cur (c # cs) =
     (if isspace c then (if cur = [] then split_from [] cs else cur # split_from [] cs)
      else split_from (cur @ [c]) cs)"

definition split :: "string \<Rightarrow> string list" where
  "split s = split_from [] s"

text \<open>
  \<open>ParseError\<close>, by the place that raises it, with the values its message is made of.
\<close>

datatype ParseError =
    ExpectedTwoColumns string int string
  | EmptyServiceName string int
  | PatternError string int PatternSyntaxError

text \<open>
  The loop of \<open>parse_serviceowners_text\<close> over the numbered lines; \<open>rules\<close> is the list
  built so far.
\<close>

fun parse_lines :: "string \<Rightarrow> int \<Rightarrow> string list \<Rightarrow> Rule list \<Rightarrow> ParseError + Rule list" where
  "parse_lines src idx [] rules = Inr rules"
| "parse_lines src idx (raw_line # rest) rules =
     (if strip raw_line = [] \<or> startswith (strip raw_line) ''#''
      then parse_lines src (idx + 1) rest rules
      else if strip (strip_inline_comment raw_line) = []
      then parse_lines src (idx + 1) rest rules
      else
        (case split (strip (strip_inline_comment raw_line)) of
           [p0, p1] \<Rightarrow>
             if strip p1 = [] then Inl (EmptyServiceName src idx)
             else
               (case compile_pattern (strip p0) of
                  Inl e \<Rightarrow> Inl (PatternError src idx e)
                | Inr c \<Rightarrow>
                    parse_lines src (idx + 1) rest
                      (rules @ [\<lparr>pattern = strip p0, service = strip p1, line = idx,
                                 source = src, compiled = c\<rparr>]))
         | _ \<Rightarrow> Inl (ExpectedTwoColumns src idx raw_line)))"

definition parse_serviceowners_text :: "string \<Rightarrow> string \<Rightarrow> ParseError + Rule list" where
  "parse_serviceowners_text text src = parse_lines src 1 (splitlines text) []"

section \<open>ownership.py\<close>

record Match =
  path :: string
  chosen :: "Rule option"
  matches :: "Rule list"

text \<open>The property \<open>Match.service\<close>.\<close>

definition Match_service :: "Match \<Rightarrow> string option" where
  "Match_service m = (case chosen m of Some r \<Rightarrow> Some (service r) | None \<Rightarrow> None)"

text \<open>
  An \<open>OwnershipIndex\<close> holds its own list \<open>_rules\<close>. Here the list is a value; the
  section on list objects below models the copies the class makes.
\<close>

record OwnershipIndex =
  rules :: "Rule list"

text \<open>The loop of \<open>OwnershipIndex.match\<close>; \<open>found\<close> is the list \<open>matches\<close> built so far.\<close>

fun match_loop :: "Rule list \<Rightarrow> string \<Rightarrow> Rule list \<Rightarrow> Rule list" where
  "match_loop [] p found = found"
| "match_loop (r # rs) p found =
     match_loop rs p (if CompiledPattern_matches (compiled r) p then found @ [r] else found)"

definition OwnershipIndex_match :: "OwnershipIndex \<Rightarrow> string \<Rightarrow> Match" where
  "OwnershipIndex_match idx p =
     (let found = match_loop (rules idx) p []
      in \<lparr>path = p, chosen = (if found \<noteq> [] then Some (last found) else None),
          matches = found\<rparr>)"

section \<open>Properties of ownership resolution\<close>

lemma match_loop_filter:
  "match_loop rs p found = found @ filter (\<lambda>r. CompiledPattern_matches (compiled r) p) rs"
  by (induction rs arbitrary: found) simp_all

text \<open>The rule file of the test \<open>test_last_match_wins\<close>, one rule per line.\<close>

definition last_match_example :: string where
  "last_match_example = ''*.py core'' @ [CHR 0x0A] @ ''src/** platform'' @ [CHR 0x0A]"

lemma last_match_example_result:
  "map_sum id
     (\<lambda>rs. let m = OwnershipIndex_match \<lparr>rules = rs\<rparr> ''src/main.py''
           in (Match_service m, length (matches m)))
     (parse_serviceowners_text last_match_example ''SERVICEOWNERS'')
   = Inr (Some ''platform'', 2)"
  by code_simp

text \<open>
  Claim C1. Last match wins: \<open>OwnershipIndex.match\<close> collects into \<open>matches\<close> every rule
  whose compiled pattern matches the path, in the order of the rule set, and \<open>chosen\<close>
  is the last of them (none when no rule matches). For the rules \<open>*.py core\<close> and
  \<open>src/** platform\<close>, in that order, \<open>match("src/main.py")\<close> has the service
  \<open>platform\<close> and two candidates.
\<close>

theorem last_match_wins:
  "matches (OwnershipIndex_match idx p)
     = filter (\<lambda>r. CompiledPattern_matches (compiled r) p) (rules idx)
   \<and> chosen (OwnershipIndex_match idx p)
     = (if matches (OwnershipIndex_match idx p) = [] then None
        else Some (last (matches (OwnershipIndex_match idx p))))
   \<and> map_sum id
       (\<lambda>rs. let m = OwnershipIndex_match \<lparr>rules = rs\<rparr> ''src/main.py''
             in (Match_service m, length (matches m)))
       (parse_serviceowners_text last_match_example ''SERVICEOWNERS'')
     = Inr (Some ''platform'', 2)"
proof -
  have "matches (OwnershipIndex_match idx p)
          = filter (\<lambda>r. CompiledPattern_matches (compiled r) p) (rules idx)"
    by (simp add: OwnershipIndex_match_def Let_def match_loop_filter)
  moreover have "chosen (OwnershipIndex_match idx p)
     = (if matches (OwnershipIndex_match idx p) = [] then None
        else Some (last (matches (OwnershipIndex_match idx p))))"
    by (simp add: OwnershipIndex_match_def Let_def)
  ultimately show ?thesis using last_match_example_result by simp
qed

theorem last_match_wins_witness:
  "matches (OwnershipIndex_match \<lparr>rules = []\<rparr> ''README.md'') = []
   \<and> chosen (OwnershipIndex_match \<lparr>rules = []\<rparr> ''README.md'') = None"
  using last_match_wins [of "\<lparr>rules = []\<rparr>" "''README.md''"] by simp

section \<open>Properties of the pattern compiler\<close>

subsection \<open>The trailing slash\<close>

text \<open>
  A bare directory name: not empty, and without a separator (\<open>/\<close>, or the backslash
  that \<open>_normalize_pattern\<close> turns into one) or a whitespace character in it.
\<close>

definition bare_directory_name :: "string \<Rightarrow> bool" where
  "bare_directory_name d =
     (d \<noteq> [] \<and> list_all (\<lambda>c. c \<noteq> CHR ''/'' \<and> c \<noteq> backslash \<and> \<not> isspace c) d)"

text \<open>
  What \<open>compile_pattern(p).matches(pth)\<close> gives: \<open>None\<close> when \<open>compile_pattern\<close> raises.
\<close>

definition pattern_accepts :: "string \<Rightarrow> string \<Rightarrow> bool option" where
  "pattern_accepts p pth =
     (case compile_pattern p of Inl e \<Rightarrow> None | Inr cp \<Rightarrow> Some (CompiledPattern_matches cp pth))"

lemma strip_dot_slash_keeps_name:
  assumes "d \<noteq> []" "d \<noteq> ''.''" "CHR ''/'' \<notin> set d" "t \<noteq> []" "hd t = CHR ''/''"
  shows "strip_dot_slash (z @ d @ t) = strip_dot_slash z @ d @ t"
proof (induction z rule: strip_dot_slash.induct)
  case (1 a b pat)
  then show ?case by simp
next
  case "2_1"
  show ?case
  proof (cases d)
    case Nil
    with assms show ?thesis by simp
  next
    case (Cons x xs)
    show ?thesis
    proof (cases xs)
      case Nil
      with Cons assms show ?thesis by (cases t) auto
    next
      case (Cons y ys)
      with \<open>d = x # xs\<close> assms show ?thesis by auto
    qed
  qed
next
  case "2_2"
  from assms obtain x xs where "d = x # xs" by (cases d) auto
  with assms show ?case by auto
qed

lemma lstrip_before_name:
  assumes "d \<noteq> []" "\<not> isspace (hd d)"
  shows "lstrip (pre @ d @ t) = lstrip pre @ d @ t"
proof -
  from assms obtain x xs where d: "d = x # xs" by (cases d) auto
  show ?thesis
  proof (cases "\<forall>c\<in>set pre. isspace c")
    case True
    then have "dropWhile isspace (pre @ d @ t) = dropWhile isspace (d @ t)"
      by (simp add: dropWhile_append2)
    moreover from True have "dropWhile isspace pre = []" by simp
    ultimately show ?thesis using d assms by (simp add: lstrip_def)
  next
    case False
    then obtain c where "c \<in> set pre" "\<not> isspace c" by blast
    then show ?thesis by (simp add: lstrip_def dropWhile_append1)
  qed
qed

lemma rstrip_ends_nonspace:
  assumes "s \<noteq> []" "\<not> isspace (last s)"
  shows "rstrip s = s"
proof -
  from assms have "rev s \<noteq> []" "\<not> isspace (hd (rev s))" by (simp_all add: hd_rev)
  then have "dropWhile isspace (rev s) = rev s" by (cases "rev s") auto
  then show ?thesis by (simp add: rstrip_def)
qed

lemma rstrip_char_name:
  assumes "d \<noteq> []" "last d \<noteq> c"
  shows "rstrip_char c (w @ d @ replicate n c) = w @ d"
proof -
  have "rev (w @ d @ replicate n c) = replicate n c @ rev d @ rev w" by simp
  moreover have "dropWhile (\<lambda>x. x = c) (replicate n c @ rev d @ rev w) = rev d @ rev w"
  proof -
    from assms have "rev d \<noteq> []" "hd (rev d) \<noteq> c" by (simp_all add: hd_rev)
    then have "dropWhile (\<lambda>x. x = c) (rev d @ rev w) = rev d @ rev w" by (cases "rev d") auto
    moreover have "dropWhile (\<lambda>x. x = c) (replicate n c @ ys) = dropWhile (\<lambda>x. x = c) ys" for ys
      by (induction n) simp_all
    ultimately show ?thesis by simp
  qed
  ultimately show ?thesis by (simp add: rstrip_char_def)
qed

lemma replace_char_absent: "c \<notin> set s \<Longrightarrow> replace_char c t s = s"
  by (induction s) (auto simp: replace_char_def)

lemma replace_char_append:
  "replace_char c t (a @ b) = replace_char c t a @ replace_char c t b"
  by (simp add: replace_char_def)

lemma replace_char_map: "replace_char c [r] s = map (\<lambda>x. if x = c then r else x) s"
  by (induction s) (simp_all add: replace_char_def)

lemma normalize_directory_shorthand:
  assumes "bare_directory_name d" and "d \<noteq> ''.''"
  shows "\<exists>w. normalize_pattern (pre @ d @ ''/'') = Inr (w @ d @ ''/**'')
           \<and> normalize_pattern (pre @ d @ ''/**'') = Inr (w @ d @ ''/**'')"
proof -
  from assms(1) have d0: "d \<noteq> []" "CHR ''/'' \<notin> set d" "backslash \<notin> set d"
    "\<not> isspace (hd d)" "\<not> isspace (last d)" "last d \<noteq> CHR ''/''"
    unfolding bare_directory_name_def list_all_iff by (auto simp: hd_in_set)
  note d = d0(1) assms(2) d0(2-6)
  define y where "y = replace_char backslash ''/'' (lstrip pre)"
  define w0 where "w0 = strip_dot_slash y"
  define w where "w = (if startswith w0 ''/'' then drop 1 w0 else w0)"
  have rd: "replace_char backslash ''/'' d = d"
    using d(4) by (rule replace_char_absent)
  have nosp: "\<not> isspace CHR ''/''" "\<not> isspace CHR ''*''" by (simp_all add: isspace_def)
  have s1: "strip (pre @ d @ t) = lstrip pre @ d @ t" if "t \<noteq> []" "\<not> isspace (last t)" for t
  proof -
    have "lstrip (pre @ d @ t) = lstrip pre @ d @ t" using d by (simp add: lstrip_before_name)
    moreover have "rstrip (lstrip pre @ d @ t) = lstrip pre @ d @ t"
      using that by (intro rstrip_ends_nonspace) simp_all
    ultimately show ?thesis by (simp add: strip_def)
  qed
  have s2: "replace_char backslash ''/'' (lstrip pre @ d @ t) = y @ d @ t" if "backslash \<notin> set t" for t
  proof -
    have "replace_char backslash ''/'' t = t" using that by (rule replace_char_absent)
    then show ?thesis using rd by (simp add: y_def replace_char_append)
  qed
  have s3: "strip_dot_slash (y @ d @ t) = w0 @ d @ t" if "t \<noteq> []" "hd t = CHR ''/''" for t
    unfolding w0_def using d that by (intro strip_dot_slash_keeps_name)
  have s4: "(if startswith (w0 @ d @ t) ''/'' then drop 1 (w0 @ d @ t) else w0 @ d @ t) = w @ d @ t" for t
  proof (cases w0)
    case Nil
    with d show ?thesis by (cases d) (auto simp: w_def startswith_def)
  next
    case (Cons a as)
    then show ?thesis by (auto simp: w_def startswith_def)
  qed
  have e1: "endswith (w @ d @ ''/'') ''/''" by (simp add: endswith_def)
  have e2: "\<not> endswith (w @ d @ ''/**'') ''/''" by (simp add: endswith_def)
  have r1: "rstrip_char CHR ''/'' (w @ d @ ''/'') = w @ d"
    using rstrip_char_name [of d "CHR ''/''" w 1] d by simp
  have ne: "lstrip pre @ d @ t \<noteq> []" "w @ d @ t \<noteq> []" for t using d by simp_all
  have gen: "normalize_pattern (pre @ d @ t) =
      (if endswith (w @ d @ t) ''/'' then Inr (rstrip_char CHR ''/'' (w @ d @ t) @ ''/**'')
       else Inr (w @ d @ t))"
    if "t \<noteq> []" "hd t = CHR ''/''" "\<not> isspace (last t)" "backslash \<notin> set t" for t
    unfolding normalize_pattern_def Let_def
    by (simp only: s1 [OF that(1,3)] s2 [OF that(4)] s3 [OF that(1,2)] s4 ne if_False)
  have "normalize_pattern (pre @ d @ ''/'') = Inr (w @ d @ ''/**'')"
    using gen [of "''/''"] e1 r1 nosp by simp
  moreover have "normalize_pattern (pre @ d @ ''/**'') = Inr (w @ d @ ''/**'')"
    using gen [of "''/**''"] e2 nosp by simp
  ultimately show ?thesis by blast
qed

lemma compile_pattern_same_normal_form:
  assumes "normalize_pattern p = normalize_pattern q"
  shows "pattern_accepts p pth = pattern_accepts q pth
    \<and> map_sum (\<lambda>e. ()) (\<lambda>cp. (normalized cp, regex cp)) (compile_pattern p)
      = map_sum (\<lambda>e. ()) (\<lambda>cp. (normalized cp, regex cp)) (compile_pattern q)"
proof (cases "normalize_pattern q")
  case (Inl e)
  with assms show ?thesis by (simp add: pattern_accepts_def compile_pattern_def)
next
  case (Inr norm)
  define rx where "rx = (if CHR ''/'' \<in> set norm then ''^'' @ glob_to_regex norm @ ''$''
                     else ''(^|.*/)'' @ glob_to_regex norm @ ''$'')"
  have p: "compile_pattern p = (case re_compile rx of
                Inl e \<Rightarrow> Inl (InvalidPattern p e)
              | Inr r \<Rightarrow> Inr \<lparr>raw = p, normalized = norm, regex = r\<rparr>)"
    using Inr assms unfolding compile_pattern_def rx_def Let_def by simp
  have q: "compile_pattern q = (case re_compile rx of
                Inl e \<Rightarrow> Inl (InvalidPattern q e)
              | Inr r \<Rightarrow> Inr \<lparr>raw = q, normalized = norm, regex = r\<rparr>)"
    using Inr unfolding compile_pattern_def rx_def Let_def by simp
  show ?thesis
    by (cases "re_compile rx")
       (simp_all add: p q pattern_accepts_def CompiledPattern_matches_def)
qed

text \<open>
  As the claim is worded it fails for the bare directory name \<open>.\<close>: the pattern \<open>./\<close>
  points to the repository root and \<open>compile_pattern\<close> refuses it, while
  \<open>"./".rstrip("/") + "/**"\<close> is \<open>./**\<close>, which compiles to the pattern \<open>**\<close> and
  accepts every path.
\<close>

theorem trailing_slash_shorthand_counterexample:
  "bare_directory_name ''.''
   \<and> rstrip_char CHR ''/'' ''./'' @ ''/**'' = ''./**''
   \<and> compile_pattern ''./'' = Inl RepoRootPattern
   \<and> pattern_accepts ''./'' ''docs/a.md'' = None
   \<and> map_sum (\<lambda>e. ()) normalized (compile_pattern ''./**'') = Inr ''**''
   \<and> pattern_accepts ''./**'' ''docs/a.md'' = Some True"
  by code_simp

text \<open>
  Claim C8, as amended. Trailing-slash shorthand: for a pattern \<open>p\<close> that ends in a bare
  directory name other than \<open>.\<close> and a \<open>/\<close>, \<open>compile_pattern(p)\<close> and
  \<open>compile_pattern(p.rstrip("/") + "/**")\<close> behave alike: both raise or both succeed,
  with the same normalized pattern and the same regular expression, so they accept
  the same paths.
\<close>

theorem trailing_slash_shorthand:
  assumes "bare_directory_name d" and "d \<noteq> ''.''" and "p = pre @ d @ ''/''"
  shows "rstrip_char CHR ''/'' p @ ''/**'' = pre @ d @ ''/**''
    \<and> pattern_accepts p pth = pattern_accepts (rstrip_char CHR ''/'' p @ ''/**'') pth
    \<and> map_sum (\<lambda>e. ()) (\<lambda>cp. (normalized cp, regex cp)) (compile_pattern p)
      = map_sum (\<lambda>e. ()) (\<lambda>cp. (normalized cp, regex cp))
          (compile_pattern (rstrip_char CHR ''/'' p @ ''/**''))"
proof -
  from assms(1) have d: "d \<noteq> []" "last d \<noteq> CHR ''/''"
    unfolding bare_directory_name_def list_all_iff by auto
  have r: "rstrip_char CHR ''/'' p = pre @ d"
    using rstrip_char_name [of d "CHR ''/''" pre 1] d assms(3) by simp
  from normalize_directory_shorthand [OF assms(1,2), of pre] obtain w where
    "normalize_pattern (pre @ d @ ''/'') = Inr (w @ d @ ''/**'')"
    "normalize_pattern (pre @ d @ ''/**'') = Inr (w @ d @ ''/**'')" by blast
  then have "normalize_pattern p = normalize_pattern (rstrip_char CHR ''/'' p @ ''/**'')"
    using r assms(3) by simp
  from compile_pattern_same_normal_form [OF this, of pth] r show ?thesis by simp
qed

theorem trailing_slash_shorthand_witness:
  "bare_directory_name ''docs'' \<and> ''docs'' \<noteq> ''.''
   \<and> pattern_accepts ''docs/'' ''docs/a/b.md'' = Some True
   \<and> pattern_accepts ''docs/**'' ''docs/a/b.md'' = Some True"
proof -
  have b: "bare_directory_name ''docs''"
    by (simp add: bare_directory_name_def isspace_def)
  have n: "''docs'' \<noteq> ''.''" by simp
  have "pattern_accepts ''docs/'' ''docs/a/b.md'' = Some True" by code_simp
  with b n trailing_slash_shorthand [OF b n, of "''docs/''" "[]" "''docs/a/b.md''"]
  show ?thesis by (simp add: rstrip_char_def)
qed


subsection \<open>Patterns without a character class\<close>

text \<open>
  The translator reads a \<open>[\<close> as the start of a character class exactly when a \<open>]\<close>
  follows somewhere after it. A pattern has a class when its first \<open>[\<close> has one
  (a later \<open>[\<close> then has one too, unless it lies inside the class).
\<close>

definition has_class :: "string \<Rightarrow> bool" where
  "has_class p = (CHR '']'' \<in> set (dropWhile (\<lambda>c. c \<noteq> CHR ''['') p))"

text \<open>
  The tokens of a glob, following the spec's words (section 4.1): \<open>**\<close>, with all
  the \<open>*\<close> that follow it, is one token that matches across path segments; \<open>*\<close>
  matches inside one segment; \<open>?\<close> matches one character other than \<open>/\<close>;
  \<open>[...]\<close> is a character class, negated by a leading \<open>!\<close>; a \<open>[\<close> with no
  \<open>]\<close> after it is a literal; every other character is a literal.
\<close>

datatype spec_token = AnyPath | AnySegment | OneChar | CharClass bool string | Lit char

function spec_glob_tokens :: "string \<Rightarrow> spec_token list" where
  "spec_glob_tokens [] = []"
| "spec_glob_tokens (c # rest) =
     (if c = CHR ''*'' then
        (if rest \<noteq> [] \<and> hd rest = CHR ''*''
         then AnyPath # spec_glob_tokens (dropWhile (\<lambda>x. x = CHR ''*'') rest)
         else AnySegment # spec_glob_tokens rest)
      else if c = CHR ''?'' then OneChar # spec_glob_tokens rest
      else if c = CHR ''['' \<and> CHR '']'' \<in> set rest then
        (if hd rest = CHR ''!''
         then CharClass True (takeWhile (\<lambda>x. x \<noteq> CHR '']'') (tl rest))
                # spec_glob_tokens (tl (dropWhile (\<lambda>x. x \<noteq> CHR '']'') rest))
         else CharClass False (takeWhile (\<lambda>x. x \<noteq> CHR '']'') rest)
                # spec_glob_tokens (tl (dropWhile (\<lambda>x. x \<noteq> CHR '']'') rest)))
      else Lit c # spec_glob_tokens rest)"
  by pat_completeness (auto simp only: list.inject list.distinct)
termination
proof -
  have a: "length (dropWhile P xs) < Suc (length xs)" for P and xs :: string
    by (simp add: less_Suc_eq_le length_dropWhile_le)
  have b: "length (dropWhile P xs) - Suc 0 < Suc (length xs)" for P and xs :: string
    using a [of P xs] by simp
  show ?thesis
    by (relation "measure length") (simp_all add: a b)
qed

text \<open>
  What the translator and the parser make of a token that is not a class: its text in
  the regular expression, the units of that text, and the item parsed from them.
\<close>

fun token_text :: "spec_token \<Rightarrow> string" where
  "token_text AnyPath = ''.*''"
| "token_text AnySegment = ''[^/]*''"
| "token_text OneChar = ''[^/]''"
| "token_text (CharClass negated members) =
     ''['' @ (if negated then ''^'' else []) @ members @ '']''"
| "token_text (Lit c) = re_escape c"

fun token_units :: "spec_token \<Rightarrow> re_unit list" where
  "token_units AnyPath = [Raw CHR ''.'', Raw CHR ''*'']"
| "token_units AnySegment = [Raw CHR ''['', Raw CHR ''^'', Raw CHR ''/'', Raw CHR '']'', Raw CHR ''*'']"
| "token_units OneChar = [Raw CHR ''['', Raw CHR ''^'', Raw CHR ''/'', Raw CHR '']'']"
| "token_units (CharClass negated members) = []"
| "token_units (Lit c) = (if length (re_escape c) = 2 then [Esc c] else [Raw c])"

abbreviation not_slash :: re_atom where
  "not_slash \<equiv> RSet True [(CHR ''/'', CHR ''/'')]"

fun token_item :: "spec_token \<Rightarrow> regex" where
  "token_item AnyPath = RStar RAny"
| "token_item AnySegment = RStar not_slash"
| "token_item OneChar = RChar not_slash"
| "token_item (CharClass negated members) = RChar (RSet negated (map (\<lambda>c. (c, c)) members))"
| "token_item (Lit c) = RChar (RLit c)"

fun is_class :: "spec_token \<Rightarrow> bool" where
  "is_class (CharClass negated members) = True"
| "is_class t = False"

lemma has_class_Cons:
  "has_class (c # rest) = (if c = CHR ''['' then CHR '']'' \<in> set rest else has_class rest)"
  by (simp add: has_class_def)

lemma has_class_dropWhile_star:
  "has_class (dropWhile (\<lambda>x. x = CHR ''*'') rest) = has_class rest"
  by (induction rest) (simp_all add: has_class_Cons)

lemma has_class_Nil: "\<not> has_class []"
  by (simp add: has_class_def)

lemma no_class_no_bracket: "CHR '']'' \<notin> set p \<Longrightarrow> \<not> has_class p"
  by (induction p) (simp_all add: has_class_Cons has_class_Nil)

lemma class_free_tokens: "\<not> has_class p \<Longrightarrow> t \<in> set (spec_glob_tokens p) \<Longrightarrow> \<not> is_class t"
proof (induction p rule: spec_glob_tokens.induct)
  case 1
  then show ?case by simp
next
  case (2 c rest)
  show ?case
  proof (cases "c = CHR ''[''")
    case True
    with "2.prems" have nb: "CHR '']'' \<notin> set rest" by (simp add: has_class_Cons)
    then have "\<not> has_class rest" by (rule no_class_no_bracket)
    with True nb "2.IH"(6) "2.prems" show ?thesis by auto
  next
    case False
    with "2.prems" have nc: "\<not> has_class rest" by (simp add: has_class_Cons)
    then have nd: "\<not> has_class (dropWhile (\<lambda>x. x = CHR ''*'') rest)"
      by (simp add: has_class_dropWhile_star)
    from False nc nd "2.IH"(1,2,3,6) "2.prems"(2) show ?thesis
      by (auto split: if_splits)
  qed
qed

lemma scan_no_close:
  assumes "CHR '']'' \<notin> set rest" "j0 \<le> length rest"
  shows "j0 + length (takeWhile (\<lambda>x. x \<noteq> CHR '']'') (drop j0 rest)) = length rest"
proof -
  have "\<forall>x\<in>set (drop j0 rest). x \<noteq> CHR '']''" using assms(1) by (auto dest: in_set_dropD)
  then have tw: "takeWhile (\<lambda>x. x \<noteq> CHR '']'') (drop j0 rest) = drop j0 rest"
    by (rule takeWhile_eq_all_conv [THEN iffD2])
  show ?thesis unfolding tw using assms(2) by simp
qed

lemma glob_to_regex_bracket_literal:
  assumes "CHR '']'' \<notin> set rest"
  shows "glob_to_regex (CHR ''['' # rest) = re_escape CHR ''['' @ glob_to_regex rest"
proof -
  define j0 :: nat where "j0 = (if rest \<noteq> [] \<and> (hd rest = CHR ''!'' \<or> hd rest = CHR ''^'') then 1 else 0)"
  have "j0 \<le> length rest" by (cases rest) (simp_all add: j0_def)
  with assms have "j0 + length (takeWhile (\<lambda>x. x \<noteq> CHR '']'') (drop j0 rest)) = length rest"
    by (rule scan_no_close)
  then show ?thesis
    by (subst glob_to_regex.simps) (simp add: Let_def j0_def [symmetric])
qed

lemma glob_to_regex_class_free:
  "\<not> has_class p \<Longrightarrow> glob_to_regex p = concat (map token_text (spec_glob_tokens p))"
proof (induction p rule: spec_glob_tokens.induct)
  case 1
  then show ?case by simp
next
  case (2 c rest)
  show ?case
  proof (cases "c = CHR ''[''")
    case True
    with "2.prems" have nb: "CHR '']'' \<notin> set rest" by (simp add: has_class_Cons)
    then have "\<not> has_class rest" by (rule no_class_no_bracket)
    with True nb "2.IH"(6) have "glob_to_regex rest = concat (map token_text (spec_glob_tokens rest))"
      by simp
    with True nb show ?thesis
      by (simp add: glob_to_regex_bracket_literal del: glob_to_regex.simps)
  next
    case False
    with "2.prems" have nc: "\<not> has_class rest" by (simp add: has_class_Cons)
    then have nd: "\<not> has_class (dropWhile (\<lambda>x. x = CHR ''*'') rest)"
      by (simp add: has_class_dropWhile_star)
    show ?thesis
    proof (cases "c = CHR ''*''")
      case star: True
      show ?thesis
      proof (cases "rest \<noteq> [] \<and> hd rest = CHR ''*''")
        case True
        with star nd "2.IH"(1) show ?thesis by (subst glob_to_regex.simps) simp
      next
        case False
        with star nc "2.IH"(2) show ?thesis by (subst glob_to_regex.simps) auto
      qed
    next
      case nostar: False
      show ?thesis
      proof (cases "c = CHR ''?''")
        case True
        with nostar nc "2.IH"(3) show ?thesis by (subst glob_to_regex.simps) simp
      next
        case False
        with nostar \<open>c \<noteq> CHR ''[''\<close> nc "2.IH"(6) show ?thesis
          by (subst glob_to_regex.simps) simp
      qed
    qed
  qed
qed

lemma special_chars:
  "length (re_escape c) = 2 \<longleftrightarrow>
     c \<in> set (''()[]{}?*+-|^$.&~# '' @ [backslash, CHR 0x09, CHR 0x0A, CHR 0x0D, CHR 0x0B, CHR 0x0C])"
  by (simp add: re_escape_def)

lemma re_lex_token:
  assumes "\<not> is_class t"
  shows "re_lex (token_text t @ s) =
         (case re_lex s of Inl e \<Rightarrow> Inl e | Inr us \<Rightarrow> Inr (token_units t @ us))"
proof (cases t)
  case (Lit c)
  show ?thesis
  proof (cases "length (re_escape c) = 2")
    case True
    then have "re_escape c = [backslash, c]" by (simp add: re_escape_def split: if_splits)
    with True Lit show ?thesis by (simp split: sum.splits)
  next
    case False
    then have "re_escape c = [c]" "c \<noteq> backslash"
      by (auto simp: re_escape_def split: if_splits)
    with False Lit show ?thesis by (simp split: sum.splits)
  qed
qed (use assms in \<open>simp_all split: sum.splits\<close>)

lemma re_lex_tokens:
  assumes "\<forall>t\<in>set ts. \<not> is_class t"
  shows "re_lex (concat (map token_text ts) @ s) =
         (case re_lex s of Inl e \<Rightarrow> Inl e | Inr us \<Rightarrow> Inr (concat (map token_units ts) @ us))"
  using assms
proof (induction ts)
  case Nil
  then show ?case by (simp split: sum.splits)
next
  case (Cons t ts)
  then have "\<not> is_class t" by simp
  from re_lex_token [OF this, of "concat (map token_text ts) @ s"] Cons
  show ?case by (simp split: sum.splits)
qed

lemma re_parse_token:
  assumes "\<not> is_class t"
  shows "re_parse cur alts stack (token_units t @ us) = re_parse (token_item t # cur) alts stack us"
proof (cases t)
  case (Lit c)
  show ?thesis
  proof (cases "length (re_escape c) = 2")
    case True
    then have "\<not> ascii_alnum c" unfolding special_chars by (auto simp: ascii_alnum_def)
    with True Lit show ?thesis by simp
  next
    case False
    then have "c \<notin> set ''.^$*[(|)+?{''" unfolding special_chars by auto
    with False Lit show ?thesis by simp
  qed
qed (use assms in \<open>simp_all add: re_set_def\<close>)

lemma re_parse_tokens:
  assumes "\<forall>t\<in>set ts. \<not> is_class t"
  shows "re_parse cur alts stack (concat (map token_units ts) @ us)
       = re_parse (rev (map token_item ts) @ cur) alts stack us"
  using assms
proof (induction ts arbitrary: cur)
  case Nil
  then show ?case by simp
next
  case (Cons t ts)
  then have "\<not> is_class t" by simp
  from re_parse_token [OF this] Cons show ?case by simp
qed

definition basename_prefix :: regex where
  "basename_prefix = RAlt (RSeq RBol REmpty) (RSeq (RStar RAny) (RSeq (RChar (RLit CHR ''/'')) REmpty))"

lemma re_compile_class_free:
  assumes "\<not> has_class norm"
  shows "re_compile (''^'' @ glob_to_regex norm @ ''$'')
           = Inr (seq_of (RBol # map token_item (spec_glob_tokens norm) @ [REol]))"
    and "re_compile (''(^|.*/)'' @ glob_to_regex norm @ ''$'')
           = Inr (seq_of (basename_prefix # map token_item (spec_glob_tokens norm) @ [REol]))"
proof -
  let ?ts = "spec_glob_tokens norm"
  have cf: "\<forall>t\<in>set ?ts. \<not> is_class t" using assms class_free_tokens by blast
  have lex: "re_lex (glob_to_regex norm @ ''$'') = Inr (concat (map token_units ?ts) @ [Raw CHR ''$''])"
    using re_lex_tokens [OF cf, of "''$''"] assms by (simp add: glob_to_regex_class_free)
  have parse: "re_parse cur alts stack (concat (map token_units ?ts) @ [Raw CHR ''$''])
        = re_parse (REol # rev (map token_item ?ts) @ cur) alts stack []" for cur alts stack
    using re_parse_tokens [OF cf, of cur alts stack "[Raw CHR ''$'']"] by simp
  show "re_compile (''^'' @ glob_to_regex norm @ ''$'')
           = Inr (seq_of (RBol # map token_item ?ts @ [REol]))"
    using lex by (simp add: re_compile_def parse close_group_def)
  show "re_compile (''(^|.*/)'' @ glob_to_regex norm @ ''$'')
           = Inr (seq_of (basename_prefix # map token_item ?ts @ [REol]))"
    using lex by (simp add: re_compile_def parse close_group_def basename_prefix_def seq_of_def)
qed


subsection \<open>When compile_pattern raises\<close>

text \<open>
  A pattern points to the repository root when nothing, or a single \<open>/\<close>, is left of
  it after the whitespace around it and the leading \<open>./\<close> are removed.
\<close>

definition points_to_repo_root :: "string \<Rightarrow> bool" where
  "points_to_repo_root p =
     (let pat3 = strip_dot_slash (replace_char backslash ''/'' (strip p))
      in pat3 = [] \<or> pat3 = ''/'')"

text \<open>The text \<open>rx\<close> that \<open>compile_pattern\<close> hands to \<open>re.compile\<close>.\<close>

definition regex_text :: "string \<Rightarrow> string" where
  "regex_text norm =
     (if CHR ''/'' \<in> set norm then ''^'' @ glob_to_regex norm @ ''$''
      else ''(^|.*/)'' @ glob_to_regex norm @ ''$'')"

lemma compile_pattern_normalized:
  "normalize_pattern p = Inr norm \<Longrightarrow>
   compile_pattern p =
     (case re_compile (regex_text norm) of
        Inl err \<Rightarrow> Inl (InvalidPattern p err)
      | Inr r \<Rightarrow> Inr \<lparr>raw = p, normalized = norm, regex = r\<rparr>)"
  by (simp add: compile_pattern_def regex_text_def Let_def)

lemma normalize_pattern_fails:
  "normalize_pattern p = Inl e \<longleftrightarrow>
     (strip p = [] \<and> e = EmptyPattern)
   \<or> (strip p \<noteq> [] \<and> points_to_repo_root p \<and> e = RepoRootPattern)"
proof -
  define pat3 where "pat3 = strip_dot_slash (replace_char backslash ''/'' (strip p))"
  define pat4 where "pat4 = (if startswith pat3 ''/'' then drop 1 pat3 else pat3)"
  have root: "pat4 = [] \<longleftrightarrow> pat3 = [] \<or> pat3 = ''/''"
    unfolding pat4_def startswith_def by (cases pat3) auto
  have n: "normalize_pattern p =
      (if strip p = [] then Inl EmptyPattern
       else if pat4 = [] then Inl RepoRootPattern
       else if endswith pat4 ''/'' then Inr (rstrip_char CHR ''/'' pat4 @ ''/**'')
       else Inr pat4)"
    unfolding normalize_pattern_def Let_def pat4_def pat3_def by simp
  have r: "points_to_repo_root p \<longleftrightarrow> pat4 = []"
    unfolding root points_to_repo_root_def Let_def pat3_def by simp
  show ?thesis unfolding n r by auto
qed

lemma regex_text_class_free:
  "\<not> has_class norm \<Longrightarrow> \<exists>r. re_compile (regex_text norm) = Inr r"
  using re_compile_class_free [of norm] by (auto simp: regex_text_def)

text \<open>
  Claim C7. \<open>compile_pattern\<close> raises \<open>PatternSyntaxError\<close> when and only when the raw
  pattern is empty once the whitespace around it is removed, or it points to the
  repository root, or its normalized form contains a character class whose translation
  \<open>re.compile\<close> refuses; for every other pattern it returns a compiled pattern. A
  \<open>[\<close> with no \<open>]\<close> after it is a literal and does not fail: \<open>a[b\<close> compiles and
  matches the path \<open>a[b\<close>.
\<close>

theorem compile_pattern_failures:
  "(compile_pattern p = Inl e \<longleftrightarrow>
       (strip p = [] \<and> e = EmptyPattern)
     \<or> (strip p \<noteq> [] \<and> points_to_repo_root p \<and> e = RepoRootPattern)
     \<or> (\<exists>norm err. normalize_pattern p = Inr norm \<and> has_class norm
            \<and> re_compile (regex_text norm) = Inl err \<and> e = InvalidPattern p err))
   \<and> pattern_accepts ''a[b'' ''a[b'' = Some True"
proof -
  have "compile_pattern p = Inl e \<longleftrightarrow>
       (strip p = [] \<and> e = EmptyPattern)
     \<or> (strip p \<noteq> [] \<and> points_to_repo_root p \<and> e = RepoRootPattern)
     \<or> (\<exists>norm err. normalize_pattern p = Inr norm \<and> has_class norm
            \<and> re_compile (regex_text norm) = Inl err \<and> e = InvalidPattern p err)"
  proof (cases "normalize_pattern p")
    case (Inl e')
    then have c: "compile_pattern p = Inl e'" by (simp add: compile_pattern_def)
    from Inl normalize_pattern_fails [of p e] show ?thesis unfolding c by auto
  next
    case (Inr norm)
    note c = compile_pattern_normalized [OF Inr]
    from Inr normalize_pattern_fails [of p] have ok: "strip p \<noteq> []" "\<not> points_to_repo_root p"
      by (metis sum.distinct(1))+
    show ?thesis
    proof (cases "re_compile (regex_text norm)")
      case (Inl err)
      with regex_text_class_free [of norm] have "has_class norm" by auto
      with Inl Inr ok show ?thesis unfolding c by auto
    next
      case (Inr r)
      with \<open>normalize_pattern p = Inr norm\<close> ok show ?thesis unfolding c by auto
    qed
  qed
  moreover have "pattern_accepts ''a[b'' ''a[b'' = Some True" by code_simp
  ultimately show ?thesis by simp
qed

theorem compile_pattern_failures_witness:
  "compile_pattern [] = Inl EmptyPattern
   \<and> points_to_repo_root ''/'' \<and> compile_pattern ''/'' = Inl RepoRootPattern
   \<and> has_class ''[z-a]''
   \<and> compile_pattern ''[z-a]'' = Inl (InvalidPattern ''[z-a]'' BadCharacterRange)"
proof -
  have 1: "strip [] = []" by code_simp
  have 2: "strip ''/'' \<noteq> []" "points_to_repo_root ''/''" by code_simp+
  have 3: "normalize_pattern ''[z-a]'' = Inr ''[z-a]''" "has_class ''[z-a]''"
    "re_compile (regex_text ''[z-a]'') = Inl BadCharacterRange" by code_simp+
  from 1 compile_pattern_failures [of "[]" EmptyPattern]
  have "compile_pattern [] = Inl EmptyPattern" by simp
  moreover from 2 compile_pattern_failures [of "''/''" RepoRootPattern]
  have "compile_pattern ''/'' = Inl RepoRootPattern" by simp
  moreover from 3 compile_pattern_failures [of "''[z-a]''" "InvalidPattern ''[z-a]'' BadCharacterRange"]
  have "compile_pattern ''[z-a]'' = Inl (InvalidPattern ''[z-a]'' BadCharacterRange)" by blast
  ultimately show ?thesis using 2 3 by simp
qed


subsection \<open>What a glob matches, in the spec's words\<close>

text \<open>
  Follows the spec's words, not the code: \<open>**\<close> matches any sequence of characters,
  across any number of segments; \<open>*\<close> matches any sequence of characters other than
  \<open>/\<close>; \<open>?\<close> matches one character other than \<open>/\<close>; a class matches one of its
  members (any other character when negated); a literal matches itself.
\<close>

fun spec_tokens_match :: "spec_token list \<Rightarrow> string \<Rightarrow> bool" where
  "spec_tokens_match [] w = (w = [])"
| "spec_tokens_match (AnyPath # ts) w =
     list_ex (\<lambda>n. spec_tokens_match ts (drop n w)) [0..<Suc (length w)]"
| "spec_tokens_match (AnySegment # ts) w =
     list_ex (\<lambda>n. CHR ''/'' \<notin> set (take n w) \<and> spec_tokens_match ts (drop n w))
       [0..<Suc (length w)]"
| "spec_tokens_match (OneChar # ts) w =
     (case w of [] \<Rightarrow> False | c # v \<Rightarrow> c \<noteq> CHR ''/'' \<and> spec_tokens_match ts v)"
| "spec_tokens_match (CharClass negated members # ts) w =
     (case w of [] \<Rightarrow> False | c # v \<Rightarrow> (c \<in> set members) \<noteq> negated \<and> spec_tokens_match ts v)"
| "spec_tokens_match (Lit d # ts) w =
     (case w of [] \<Rightarrow> False | c # v \<Rightarrow> c = d \<and> spec_tokens_match ts v)"

definition spec_glob_matches :: "string \<Rightarrow> string \<Rightarrow> bool" where
  "spec_glob_matches p s = spec_tokens_match (spec_glob_tokens p) s"

text \<open>The final \<open>/\<close>-delimited segment of a path.\<close>

definition last_segment :: "string \<Rightarrow> string" where
  "last_segment pth = rev (takeWhile (\<lambda>c. c \<noteq> CHR ''/'') (rev pth))"


subsection \<open>The regular expression of a pattern without a class\<close>

lemma split_ex: "list_ex (\<lambda>n. P (take n w) (drop n w)) [0..<Suc (length w)] \<longleftrightarrow> (\<exists>u v. w = u @ v \<and> P u v)"
proof
  assume "list_ex (\<lambda>n. P (take n w) (drop n w)) [0..<Suc (length w)]"
  then obtain n where "P (take n w) (drop n w)" unfolding list_ex_iff by blast
  then show "\<exists>u v. w = u @ v \<and> P u v" by (metis append_take_drop_id)
next
  assume "\<exists>u v. w = u @ v \<and> P u v"
  then obtain u v where w: "w = u @ v" and "P u v" by blast
  then have "P (take (length u) w) (drop (length u) w)" by simp
  moreover have "length u \<in> set [0..<Suc (length w)]" using w by simp
  ultimately show "list_ex (\<lambda>n. P (take n w) (drop n w)) [0..<Suc (length w)]"
    unfolding list_ex_iff by blast
qed

lemma match_AnyPath:
  "spec_tokens_match (AnyPath # ts) w \<longleftrightarrow> (\<exists>u v. w = u @ v \<and> spec_tokens_match ts v)"
  using split_ex [of "\<lambda>u v. spec_tokens_match ts v" w] by simp

lemma match_AnySegment:
  "spec_tokens_match (AnySegment # ts) w \<longleftrightarrow>
     (\<exists>u v. w = u @ v \<and> CHR ''/'' \<notin> set u \<and> spec_tokens_match ts v)"
  using split_ex [of "\<lambda>u v. CHR ''/'' \<notin> set u \<and> spec_tokens_match ts v" w] by simp

lemma match_OneChar:
  "spec_tokens_match (OneChar # ts) w \<longleftrightarrow>
     (\<exists>c v. w = c # v \<and> c \<noteq> CHR ''/'' \<and> spec_tokens_match ts v)"
  by (cases w) auto

lemma match_Lit:
  "spec_tokens_match (Lit d # ts) w \<longleftrightarrow> (\<exists>v. w = d # v \<and> spec_tokens_match ts v)"
  by (cases w) auto

lemma star_ends_set:
  "(j, r) \<in> set (star_ends a i s) \<longleftrightarrow>
     (\<exists>u. s = u @ r \<and> j = i + length u \<and> (\<forall>c\<in>set u. atom_ok a c))"
proof (induction s arbitrary: i)
  case Nil
  then show ?case by auto
next
  case (Cons c cs)
  show ?case
  proof
    assume "(j, r) \<in> set (star_ends a i (c # cs))"
    then consider "j = i" "r = c # cs" | "atom_ok a c" "(j, r) \<in> set (star_ends a (Suc i) cs)"
      by (auto split: if_splits)
    then show "\<exists>u. c # cs = u @ r \<and> j = i + length u \<and> (\<forall>c\<in>set u. atom_ok a c)"
    proof cases
      case 1
      then show ?thesis by (intro exI [of _ "[]"]) simp
    next
      case 2
      with Cons obtain u where "cs = u @ r" "j = Suc i + length u" "\<forall>c\<in>set u. atom_ok a c"
        by blast
      with 2 show ?thesis by (intro exI [of _ "c # u"]) simp
    qed
  next
    assume "\<exists>u. c # cs = u @ r \<and> j = i + length u \<and> (\<forall>c\<in>set u. atom_ok a c)"
    then obtain u where u: "c # cs = u @ r" "j = i + length u" "\<forall>c\<in>set u. atom_ok a c" by blast
    show "(j, r) \<in> set (star_ends a i (c # cs))"
    proof (cases u)
      case Nil
      with u have "r = c # cs" "j = i" by auto
      then show ?thesis by simp
    next
      case (Cons d u')
      with u have "d = c" "cs = u' @ r" "j = Suc i + length u'" "atom_ok a c" "\<forall>c\<in>set u'. atom_ok a c"
        by auto
      with Cons.IH [of "Suc i"] show ?thesis by auto
    qed
  qed
qed

lemma seq_of_Cons: "seq_of (x # xs) = RSeq x (seq_of xs)"
  by (simp add: seq_of_def)

lemma re_ends_seq:
  "(j, r) \<in> set (re_ends (RSeq a b) st) \<longleftrightarrow> (\<exists>st'\<in>set (re_ends a st). (j, r) \<in> set (re_ends b st'))"
  by auto

lemma not_slash_ok: "atom_ok not_slash c \<longleftrightarrow> c \<noteq> CHR ''/''"
  by auto

lemma re_ends_tokens:
  assumes "\<forall>t\<in>set ts. \<not> is_class t" "CHR 0x0A \<notin> set s"
  shows "(j, r) \<in> set (re_ends (seq_of (map token_item ts @ items)) (i, s)) \<longleftrightarrow>
     (\<exists>w s'. s = w @ s' \<and> spec_tokens_match ts w
         \<and> (j, r) \<in> set (re_ends (seq_of items) (i + length w, s')))"
  using assms
proof (induction ts arbitrary: i s)
  case Nil
  then show ?case by simp
next
  case (Cons t ts)
  then have IH: "(j, r) \<in> set (re_ends (seq_of (map token_item ts @ items)) (i', s1)) \<longleftrightarrow>
     (\<exists>w s'. s1 = w @ s' \<and> spec_tokens_match ts w
         \<and> (j, r) \<in> set (re_ends (seq_of items) (i' + length w, s')))"
    if "CHR 0x0A \<notin> set s1" for i' s1 using that by simp
  let ?R = "seq_of (map token_item ts @ items)"
  let ?T = "\<lambda>pos rest. (j, r) \<in> set (re_ends (seq_of items) (pos, rest))"
  define Q where "Q u s1 \<longleftrightarrow> (\<exists>w s'. s1 = w @ s' \<and> spec_tokens_match ts w
         \<and> ?T (i + length u + length w) s')" for u :: string and s1
  have ih: "(j, r) \<in> set (re_ends ?R (i + length u, s1)) \<longleftrightarrow> Q u s1" if "s = u @ s1" for u s1
    using IH [of s1 "i + length u"] Cons.prems(2) that unfolding Q_def by simp
  have one: "(P c \<and> (\<exists>w s'. cs = w @ s' \<and> spec_tokens_match ts w \<and> ?T (Suc i + length w) s')) \<longleftrightarrow>
      (\<exists>w s'. c # cs = w @ s' \<and> (\<exists>c' v. w = c' # v \<and> P c' \<and> spec_tokens_match ts v)
          \<and> ?T (i + length w) s')" for P c cs
  proof
    assume "P c \<and> (\<exists>w s'. cs = w @ s' \<and> spec_tokens_match ts w \<and> ?T (Suc i + length w) s')"
    then obtain w s' where "P c" "cs = w @ s'" "spec_tokens_match ts w" "?T (Suc i + length w) s'"
      by blast
    then have "c # cs = (c # w) @ s' \<and> (\<exists>c' v. c # w = c' # v \<and> P c' \<and> spec_tokens_match ts v)
          \<and> ?T (i + length (c # w)) s'" by simp
    then show "\<exists>w s'. c # cs = w @ s' \<and> (\<exists>c' v. w = c' # v \<and> P c' \<and> spec_tokens_match ts v)
          \<and> ?T (i + length w) s'" by blast
  next
    assume "\<exists>w s'. c # cs = w @ s' \<and> (\<exists>c' v. w = c' # v \<and> P c' \<and> spec_tokens_match ts v)
          \<and> ?T (i + length w) s'"
    then obtain c' v s' where "c # cs = (c' # v) @ s'" "P c'" "spec_tokens_match ts v"
      "?T (i + length (c' # v)) s'" by blast
    then have "P c" "cs = v @ s'" "spec_tokens_match ts v" "?T (Suc i + length v) s'" by simp_all
    then show "P c \<and> (\<exists>w s'. cs = w @ s' \<and> spec_tokens_match ts w \<and> ?T (Suc i + length w) s')"
      by blast
  qed
  have regroup: "(\<exists>u s1. s = u @ s1 \<and> P u \<and> Q u s1) \<longleftrightarrow>
      (\<exists>w s'. s = w @ s' \<and> (\<exists>u v. w = u @ v \<and> P u \<and> spec_tokens_match ts v) \<and> ?T (i + length w) s')"
    for P
  proof
    assume "\<exists>u s1. s = u @ s1 \<and> P u \<and> Q u s1"
    then obtain u w s' where "s = u @ w @ s'" "P u" "spec_tokens_match ts w"
      "?T (i + length u + length w) s'" unfolding Q_def by blast
    then have "s = (u @ w) @ s' \<and> (\<exists>u' v. u @ w = u' @ v \<and> P u' \<and> spec_tokens_match ts v)
        \<and> ?T (i + length (u @ w)) s'" by (auto simp: add.assoc)
    then show "\<exists>w s'. s = w @ s' \<and> (\<exists>u v. w = u @ v \<and> P u \<and> spec_tokens_match ts v)
        \<and> ?T (i + length w) s'" by blast
  next
    assume "\<exists>w s'. s = w @ s' \<and> (\<exists>u v. w = u @ v \<and> P u \<and> spec_tokens_match ts v)
        \<and> ?T (i + length w) s'"
    then obtain u v s' where "s = (u @ v) @ s'" "P u" "spec_tokens_match ts v"
      "?T (i + length (u @ v)) s'" by blast
    then have "s = u @ (v @ s') \<and> P u \<and> Q u (v @ s')" unfolding Q_def by (auto simp: add.assoc)
    then show "\<exists>u s1. s = u @ s1 \<and> P u \<and> Q u s1" by blast
  qed
  show ?case
  proof (cases t)
    case AnyPath
    have "(j, r) \<in> set (re_ends (seq_of (map token_item (t # ts) @ items)) (i, s)) \<longleftrightarrow>
          (\<exists>u s1. s = u @ s1 \<and> True \<and> (j, r) \<in> set (re_ends ?R (i + length u, s1)))"
      using Cons.prems(2) by (fastforce simp: AnyPath seq_of_Cons star_ends_set)
    also have "\<dots> \<longleftrightarrow> (\<exists>u s1. s = u @ s1 \<and> True \<and> Q u s1)"
      using ih by blast
    also have "\<dots> \<longleftrightarrow> (\<exists>w s'. s = w @ s' \<and> spec_tokens_match (t # ts) w \<and> ?T (i + length w) s')"
      unfolding AnyPath match_AnyPath regroup by simp
    finally show ?thesis .
  next
    case AnySegment
    have "(j, r) \<in> set (re_ends (seq_of (map token_item (t # ts) @ items)) (i, s)) \<longleftrightarrow>
          (\<exists>u s1. s = u @ s1 \<and> CHR ''/'' \<notin> set u \<and> (j, r) \<in> set (re_ends ?R (i + length u, s1)))"
      unfolding AnySegment by (fastforce simp: seq_of_Cons star_ends_set)
    also have "\<dots> \<longleftrightarrow> (\<exists>u s1. s = u @ s1 \<and> CHR ''/'' \<notin> set u \<and> Q u s1)"
      using ih by blast
    also have "\<dots> \<longleftrightarrow> (\<exists>w s'. s = w @ s' \<and> spec_tokens_match (t # ts) w \<and> ?T (i + length w) s')"
      unfolding AnySegment match_AnySegment regroup by simp
    finally show ?thesis .
  next
    case OneChar
    show ?thesis
    proof (cases s)
      case Nil
      then show ?thesis by (simp add: OneChar seq_of_Cons match_OneChar)
    next
      case (Cons c cs)
      with Cons.prems(2) have nl: "CHR 0x0A \<notin> set cs" by simp
      have "(j, r) \<in> set (re_ends (seq_of (map token_item (t # ts) @ items)) (i, s)) \<longleftrightarrow>
          (c \<noteq> CHR ''/'' \<and> (j, r) \<in> set (re_ends ?R (Suc i, cs)))"
        by (simp add: OneChar seq_of_Cons Cons not_slash_ok del: atom_ok.simps)
      also have "\<dots> \<longleftrightarrow> (c \<noteq> CHR ''/'' \<and> (\<exists>w s'. cs = w @ s' \<and> spec_tokens_match ts w \<and> ?T (Suc i + length w) s'))"
        by (simp add: IH [OF nl])
      also have "\<dots> \<longleftrightarrow> (\<exists>w s'. s = w @ s' \<and> spec_tokens_match (t # ts) w \<and> ?T (i + length w) s')"
        unfolding OneChar Cons match_OneChar by (rule one)
      finally show ?thesis .
    qed
  next
    case (CharClass negated members)
    with Cons.prems show ?thesis by simp
  next
    case (Lit d)
    show ?thesis
    proof (cases s)
      case Nil
      then show ?thesis by (simp add: Lit seq_of_Cons match_Lit)
    next
      case (Cons c cs)
      with Cons.prems(2) have nl: "CHR 0x0A \<notin> set cs" by simp
      have "(j, r) \<in> set (re_ends (seq_of (map token_item (t # ts) @ items)) (i, s)) \<longleftrightarrow>
          (c = d \<and> (j, r) \<in> set (re_ends ?R (Suc i, cs)))"
        by (simp add: Lit seq_of_Cons Cons)
      also have "\<dots> \<longleftrightarrow> (c = d \<and> (\<exists>w s'. cs = w @ s' \<and> spec_tokens_match ts w \<and> ?T (Suc i + length w) s'))"
        by (simp add: IH [OF nl])
      also have "\<dots> \<longleftrightarrow> (\<exists>w s'. s = w @ s' \<and> spec_tokens_match (t # ts) w \<and> ?T (i + length w) s')"
        unfolding Lit Cons match_Lit using one [of "\<lambda>x. x = d" c cs] by auto
      finally show ?thesis .
    qed
  qed
qed


subsection \<open>Basename patterns\<close>

text \<open>A pattern has a \<open>**\<close> token when two \<open>*\<close> stand side by side in it.\<close>

fun has_double_star :: "string \<Rightarrow> bool" where
  "has_double_star (c # d # rest) = ((c = CHR ''*'' \<and> d = CHR ''*'') \<or> has_double_star (d # rest))"
| "has_double_star p = False"

text \<open>The tokens that match inside one path segment only.\<close>

fun segment_token :: "spec_token \<Rightarrow> bool" where
  "segment_token AnySegment = True"
| "segment_token OneChar = True"
| "segment_token (Lit c) = (c \<noteq> CHR ''/'')"
| "segment_token t = False"

lemma segment_tokens:
  "\<not> has_class p \<Longrightarrow> \<not> has_double_star p \<Longrightarrow> CHR ''/'' \<notin> set p \<Longrightarrow>
   t \<in> set (spec_glob_tokens p) \<Longrightarrow> segment_token t"
proof (induction p rule: spec_glob_tokens.induct)
  case 1
  then show ?case by simp
next
  case (2 c rest)
  have nds: "\<not> has_double_star rest" using "2.prems"(2) by (cases rest) auto
  have nsl: "CHR ''/'' \<notin> set rest" "c \<noteq> CHR ''/''" using "2.prems"(3) by auto
  show ?case
  proof (cases "c = CHR ''[''")
    case True
    with "2.prems" have nb: "CHR '']'' \<notin> set rest" by (simp add: has_class_Cons)
    then have "\<not> has_class rest" by (rule no_class_no_bracket)
    with True nb nds nsl "2.IH"(6) "2.prems"(4) show ?thesis by auto
  next
    case False
    with "2.prems" have nc: "\<not> has_class rest" by (simp add: has_class_Cons)
    show ?thesis
    proof (cases "c = CHR ''*''")
      case True
      with "2.prems"(2) have "\<not> (rest \<noteq> [] \<and> hd rest = CHR ''*'')" by (cases rest) auto
      with True nc nds nsl "2.IH"(2) "2.prems"(4) show ?thesis by auto
    next
      case nostar: False
      with False nc nds nsl "2.IH"(3,6) "2.prems"(4) show ?thesis by (auto split: if_splits)
    qed
  qed
qed

lemma segment_tokens_match_no_slash:
  "\<forall>t\<in>set ts. segment_token t \<Longrightarrow> spec_tokens_match ts w \<Longrightarrow> CHR ''/'' \<notin> set w"
proof (induction ts arbitrary: w)
  case Nil
  then show ?case by simp
next
  case (Cons t ts)
  then show ?case
    by (cases t) (auto simp: match_AnySegment match_OneChar match_Lit simp del: spec_tokens_match.simps)
qed

lemma basename_prefix_ends:
  assumes "CHR 0x0A \<notin> set s"
  shows "(j, r) \<in> set (re_ends basename_prefix (0, s)) \<longleftrightarrow>
     (j = 0 \<and> r = s) \<or> (\<exists>u. s = u @ CHR ''/'' # r \<and> j = Suc (length u))"
proof -
  have "(j, r) \<in> set (re_ends (RSeq (RStar RAny) (RSeq (RChar (RLit CHR ''/'')) REmpty)) (0, s))
      \<longleftrightarrow> (\<exists>u. s = u @ CHR ''/'' # r \<and> j = Suc (length u))"
  proof
    assume "(j, r) \<in> set (re_ends (RSeq (RStar RAny) (RSeq (RChar (RLit CHR ''/'')) REmpty)) (0, s))"
    then obtain i' s' where a: "(i', s') \<in> set (star_ends RAny 0 s)"
      and b: "(j, r) \<in> set (re_ends (RSeq (RChar (RLit CHR ''/'')) REmpty) (i', s'))" by auto
    from a obtain u where u: "s = u @ s'" "i' = length u" by (auto simp: star_ends_set)
    from b have "s' = CHR ''/'' # r" "j = Suc i'" by (cases s'; auto split: if_splits)+
    with u show "\<exists>u. s = u @ CHR ''/'' # r \<and> j = Suc (length u)" by blast
  next
    assume "\<exists>u. s = u @ CHR ''/'' # r \<and> j = Suc (length u)"
    then obtain u where u: "s = u @ CHR ''/'' # r" "j = Suc (length u)" by blast
    with assms have "(length u, CHR ''/'' # r) \<in> set (star_ends RAny 0 s)"
      by (auto simp: star_ends_set)
    then have a: "(length u, CHR ''/'' # r) \<in> set (re_ends (RStar RAny) (0, s))" by simp
    have b: "(j, r) \<in> set (re_ends (RSeq (RChar (RLit CHR ''/'')) REmpty) (length u, CHR ''/'' # r))"
      using u by simp
    show "(j, r) \<in> set (re_ends (RSeq (RStar RAny) (RSeq (RChar (RLit CHR ''/'')) REmpty)) (0, s))"
      using a b re_ends_seq [of j r "RStar RAny" "RSeq (RChar (RLit CHR ''/'')) REmpty" "(0, s)"]
      by blast
  qed
  then show ?thesis unfolding basename_prefix_def by auto
qed

lemma last_segment_whole: "CHR ''/'' \<notin> set s \<Longrightarrow> last_segment s = s"
proof -
  assume "CHR ''/'' \<notin> set s"
  then have "takeWhile (\<lambda>c. c \<noteq> CHR ''/'') (rev s) = rev s"
    by (intro takeWhile_eq_all_conv [THEN iffD2]) auto
  then show ?thesis unfolding last_segment_def by (simp only: rev_rev_ident)
qed

lemma last_segment_after_slash: "CHR ''/'' \<notin> set s \<Longrightarrow> last_segment (u @ CHR ''/'' # s) = s"
proof -
  assume "CHR ''/'' \<notin> set s"
  then have "takeWhile (\<lambda>c. c \<noteq> CHR ''/'') (rev s @ CHR ''/'' # rev u) = rev s"
    by (subst takeWhile_append2) auto
  then show ?thesis by (simp add: last_segment_def)
qed

lemma last_segment_split:
  "pth = last_segment pth \<or> (\<exists>u. pth = u @ CHR ''/'' # last_segment pth)"
proof -
  have "rev pth = takeWhile (\<lambda>c. c \<noteq> CHR ''/'') (rev pth) @ dropWhile (\<lambda>c. c \<noteq> CHR ''/'') (rev pth)"
    by simp
  then have e: "pth = rev (dropWhile (\<lambda>c. c \<noteq> CHR ''/'') (rev pth)) @ last_segment pth"
    unfolding last_segment_def by (metis rev_append rev_rev_ident)
  show ?thesis
  proof (cases "dropWhile (\<lambda>c. c \<noteq> CHR ''/'') (rev pth)")
    case Nil
    with e show ?thesis by simp
  next
    case (Cons c cs)
    then have "c = CHR ''/''" using hd_dropWhile [of "\<lambda>c. c \<noteq> CHR ''/''" "rev pth"] by auto
    with Cons e have "pth = rev cs @ CHR ''/'' # last_segment pth" by simp
    then show ?thesis by blast
  qed
qed

lemma last_segment_no_slash: "CHR ''/'' \<notin> set (last_segment pth)"
  unfolding last_segment_def using set_takeWhileD by fastforce


lemma eol_ends:
  "CHR 0x0A \<notin> set s' \<Longrightarrow> (j, r) \<in> set (re_ends (seq_of [REol]) (k, s')) \<longleftrightarrow> s' = [] \<and> j = k \<and> r = []"
  by (auto simp: seq_of_def)

lemma re_match_after_prefix:
  assumes cf: "\<forall>t\<in>set ts. \<not> is_class t"
    and sub: "\<And>i0 w. (i0, w) \<in> set (re_ends pre (0, pth)) \<Longrightarrow> CHR 0x0A \<notin> set w"
  shows "re_match (seq_of (pre # map token_item ts @ [REol])) pth \<longleftrightarrow>
     (\<exists>i0 w. (i0, w) \<in> set (re_ends pre (0, pth)) \<and> spec_tokens_match ts w)"
proof -
  have inner: "(\<exists>j r. (j, r) \<in> set (re_ends (seq_of (map token_item ts @ [REol])) (i0, w)))
      \<longleftrightarrow> spec_tokens_match ts w" if "(i0, w) \<in> set (re_ends pre (0, pth))" for i0 w
  proof -
    from sub [OF that] have nl: "CHR 0x0A \<notin> set w" .
    have "(\<exists>j r. (j, r) \<in> set (re_ends (seq_of (map token_item ts @ [REol])) (i0, w))) \<longleftrightarrow>
        (\<exists>j r x s'. w = x @ s' \<and> spec_tokens_match ts x
            \<and> (j, r) \<in> set (re_ends (seq_of [REol]) (i0 + length x, s')))"
      using re_ends_tokens [OF cf nl, of _ _ "[REol]" i0] by blast
    also have "\<dots> \<longleftrightarrow> (\<exists>x s'. w = x @ s' \<and> spec_tokens_match ts x \<and> s' = [])"
    proof -
      have "(\<exists>j r. (j, r) \<in> set (re_ends (seq_of [REol]) (i0 + length x, s'))) \<longleftrightarrow> s' = []"
        if "w = x @ s'" for x s'
        using eol_ends [of s' _ _ "i0 + length x"] nl that by auto
      then show ?thesis by blast
    qed
    also have "\<dots> \<longleftrightarrow> spec_tokens_match ts w" by simp
    finally show ?thesis .
  qed
  have "re_match (seq_of (pre # map token_item ts @ [REol])) pth \<longleftrightarrow>
      (\<exists>j r. (j, r) \<in> set (re_ends (RSeq pre (seq_of (map token_item ts @ [REol]))) (0, pth)))"
    unfolding re_match_def seq_of_Cons [symmetric] append_Cons [symmetric]
    by (metis list.set_intros(1) neq_Nil_conv surj_pair empty_iff empty_set)
  also have "\<dots> \<longleftrightarrow> (\<exists>i0 w. (i0, w) \<in> set (re_ends pre (0, pth))
        \<and> (\<exists>j r. (j, r) \<in> set (re_ends (seq_of (map token_item ts @ [REol])) (i0, w))))"
    unfolding re_ends_seq by auto
  also have "\<dots> \<longleftrightarrow> (\<exists>i0 w. (i0, w) \<in> set (re_ends pre (0, pth)) \<and> spec_tokens_match ts w)"
    using inner by blast
  finally show ?thesis .
qed

lemma re_match_basename:
  assumes cf: "\<forall>t\<in>set ts. \<not> is_class t" and seg: "\<forall>t\<in>set ts. segment_token t"
    and nl: "CHR 0x0A \<notin> set pth"
  shows "re_match (seq_of (basename_prefix # map token_item ts @ [REol])) pth \<longleftrightarrow>
     spec_tokens_match ts (last_segment pth)"
proof -
  have sub: "CHR 0x0A \<notin> set w" if "(i0, w) \<in> set (re_ends basename_prefix (0, pth))" for i0 w
    using that nl unfolding basename_prefix_ends [OF nl] by auto
  have "re_match (seq_of (basename_prefix # map token_item ts @ [REol])) pth \<longleftrightarrow>
     (\<exists>i0 w. (i0, w) \<in> set (re_ends basename_prefix (0, pth)) \<and> spec_tokens_match ts w)"
    using re_match_after_prefix [OF cf, of basename_prefix pth] sub by blast
  also have "\<dots> \<longleftrightarrow> spec_tokens_match ts pth \<or> (\<exists>u w. pth = u @ CHR ''/'' # w \<and> spec_tokens_match ts w)"
    unfolding basename_prefix_ends [OF nl] by blast
  also have "\<dots> \<longleftrightarrow> spec_tokens_match ts (last_segment pth)"
  proof
    assume "spec_tokens_match ts pth \<or> (\<exists>u w. pth = u @ CHR ''/'' # w \<and> spec_tokens_match ts w)"
    then show "spec_tokens_match ts (last_segment pth)"
    proof
      assume m: "spec_tokens_match ts pth"
      with seg have "CHR ''/'' \<notin> set pth" by (rule segment_tokens_match_no_slash)
      with m show ?thesis by (simp add: last_segment_whole)
    next
      assume "\<exists>u w. pth = u @ CHR ''/'' # w \<and> spec_tokens_match ts w"
      then obtain u w where p: "pth = u @ CHR ''/'' # w" and m: "spec_tokens_match ts w" by blast
      from seg m have "CHR ''/'' \<notin> set w" by (rule segment_tokens_match_no_slash)
      with p m show ?thesis by (simp add: last_segment_after_slash)
    qed
  next
    assume "spec_tokens_match ts (last_segment pth)"
    with last_segment_split [of pth]
    show "spec_tokens_match ts pth \<or> (\<exists>u w. pth = u @ CHR ''/'' # w \<and> spec_tokens_match ts w)"
      by metis
  qed
  finally show ?thesis .
qed

lemma basename_examples:
  "pattern_accepts ''*.md'' ''README.md'' = Some True
   \<and> pattern_accepts ''*.md'' ''docs/README.md'' = Some True
   \<and> pattern_accepts ''*.md'' ''docs/README.mdx'' = Some False"
  by code_simp

text \<open>
  Claim C2, as amended. Basename anchoring: for a pattern whose normalized form has no
  \<open>/\<close>, no \<open>**\<close> and no character class, and a path without a newline character,
  \<open>compile_pattern(p).matches(path)\<close> is true if and only if the normalized glob
  matches the final \<open>/\<close>-delimited segment of the path, whatever the depth of the
  directory. \<open>*.md\<close> matches \<open>README.md\<close> and \<open>docs/README.md\<close> and not
  \<open>docs/README.mdx\<close>.
\<close>

theorem basename_anchoring:
  assumes "normalize_pattern p = Inr norm"
    and "CHR ''/'' \<notin> set norm" and "\<not> has_double_star norm" and "\<not> has_class norm"
    and "CHR 0x0A \<notin> set pth"
  shows "pattern_accepts p pth = Some (spec_glob_matches norm (last_segment pth))
    \<and> pattern_accepts ''*.md'' ''README.md'' = Some True
    \<and> pattern_accepts ''*.md'' ''docs/README.md'' = Some True
    \<and> pattern_accepts ''*.md'' ''docs/README.mdx'' = Some False"
proof -
  let ?ts = "spec_glob_tokens norm"
  have cf: "\<forall>t\<in>set ?ts. \<not> is_class t" using assms(4) class_free_tokens by blast
  have seg: "\<forall>t\<in>set ?ts. segment_token t" using assms(2,3,4) segment_tokens by blast
  have "compile_pattern p = Inr \<lparr>raw = p, normalized = norm,
      regex = seq_of (basename_prefix # map token_item ?ts @ [REol])\<rparr>"
    using compile_pattern_normalized [OF assms(1)] assms(2) re_compile_class_free(2) [OF assms(4)]
    by (simp add: regex_text_def)
  then have "pattern_accepts p pth =
      Some (re_match (seq_of (basename_prefix # map token_item ?ts @ [REol])) pth)"
    by (simp add: pattern_accepts_def CompiledPattern_matches_def)
  then have "pattern_accepts p pth = Some (spec_glob_matches norm (last_segment pth))"
    using re_match_basename [OF cf seg assms(5)] by (simp add: spec_glob_matches_def)
  with basename_examples show ?thesis by simp
qed

theorem basename_anchoring_witness:
  "normalize_pattern ''./*.md'' = Inr ''*.md''
   \<and> pattern_accepts ''./*.md'' ''docs/README.md'' = Some True
   \<and> spec_glob_matches ''*.md'' (last_segment ''docs/README.md'')"
proof -
  have h: "normalize_pattern ''./*.md'' = Inr ''*.md''" "CHR ''/'' \<notin> set ''*.md''"
    "\<not> has_double_star ''*.md''" "\<not> has_class ''*.md''" "CHR 0x0A \<notin> set ''docs/README.md''"
    by code_simp+
  have m: "spec_glob_matches ''*.md'' (last_segment ''docs/README.md'')" by code_simp
  from basename_anchoring [OF h] m h(1) show ?thesis by simp
qed

text \<open>
  The claim as stated, for every pattern without \<open>/\<close>, fails for \<open>a**b\<close>: its \<open>**\<close>
  crosses the \<open>/\<close> of \<open>ax/yb\<close>, whose final segment \<open>yb\<close> the glob does not match.
\<close>

theorem basename_anchoring_counterexample:
  "normalize_pattern ''a**b'' = Inr ''a**b'' \<and> CHR ''/'' \<notin> set ''a**b''
   \<and> pattern_accepts ''a**b'' ''ax/yb'' = Some True
   \<and> last_segment ''ax/yb'' = ''yb''
   \<and> \<not> spec_glob_matches ''a**b'' (last_segment ''ax/yb'')"
  by code_simp

text \<open>
  The other two conditions are needed as well: a negated class matches a \<open>/\<close>, and
  \<open>$\<close> matches before a newline that ends the path.
\<close>

lemma basename_other_exceptions:
  "pattern_accepts ''a[!x]b'' ''a/b'' = Some True
   \<and> \<not> spec_glob_matches ''a[!x]b'' (last_segment ''a/b'')
   \<and> pattern_accepts ''*.md'' (''README.md'' @ [CHR 0x0A]) = Some True
   \<and> \<not> spec_glob_matches ''*.md'' (last_segment (''README.md'' @ [CHR 0x0A]))"
  by code_simp


subsection \<open>The token for two or more stars\<close>

lemma match_CharClass:
  "spec_tokens_match (CharClass negated members # ts) w \<longleftrightarrow>
     (\<exists>c v. w = c # v \<and> (c \<in> set members) \<noteq> negated \<and> spec_tokens_match ts v)"
proof (cases w)
  case Nil
  then show ?thesis by simp
next
  case (Cons c v)
  then show ?thesis by simp
qed

lemma spec_tokens_match_append:
  "spec_tokens_match ts1 a \<Longrightarrow> spec_tokens_match ts2 b \<Longrightarrow> spec_tokens_match (ts1 @ ts2) (a @ b)"
proof (induction ts1 arbitrary: a)
  case Nil
  then show ?case by simp
next
  case (Cons t ts1)
  note b = Cons.prems(2)
  show ?case
  proof (cases t)
    case AnyPath
    from Cons.prems(1) obtain u v where a: "a = u @ v" and v: "spec_tokens_match ts1 v"
      unfolding AnyPath match_AnyPath by blast
    from Cons.IH [OF v b] a
    have "a @ b = u @ (v @ b) \<and> spec_tokens_match (ts1 @ ts2) (v @ b)" by simp
    then have "spec_tokens_match (AnyPath # (ts1 @ ts2)) (a @ b)"
      unfolding match_AnyPath by blast
    then show ?thesis unfolding AnyPath by (simp only: append_Cons)
  next
    case AnySegment
    from Cons.prems(1) obtain u v where a: "a = u @ v" "CHR ''/'' \<notin> set u"
      and v: "spec_tokens_match ts1 v"
      unfolding AnySegment match_AnySegment by blast
    from Cons.IH [OF v b] a
    have "a @ b = u @ (v @ b) \<and> CHR ''/'' \<notin> set u \<and> spec_tokens_match (ts1 @ ts2) (v @ b)"
      by simp
    then have "spec_tokens_match (AnySegment # (ts1 @ ts2)) (a @ b)"
      unfolding match_AnySegment by blast
    then show ?thesis unfolding AnySegment by (simp only: append_Cons)
  next
    case OneChar
    from Cons.prems(1) obtain c v where a: "a = c # v" "c \<noteq> CHR ''/''"
      and v: "spec_tokens_match ts1 v"
      unfolding OneChar match_OneChar by blast
    from Cons.IH [OF v b] a
    have "a @ b = c # (v @ b) \<and> c \<noteq> CHR ''/'' \<and> spec_tokens_match (ts1 @ ts2) (v @ b)"
      by simp
    then have "spec_tokens_match (OneChar # (ts1 @ ts2)) (a @ b)"
      unfolding match_OneChar by blast
    then show ?thesis unfolding OneChar by (simp only: append_Cons)
  next
    case (CharClass negated members)
    from Cons.prems(1) obtain c v where a: "a = c # v" "(c \<in> set members) \<noteq> negated"
      and v: "spec_tokens_match ts1 v"
      unfolding CharClass match_CharClass by blast
    from Cons.IH [OF v b] a
    have "a @ b = c # (v @ b) \<and> (c \<in> set members) \<noteq> negated
        \<and> spec_tokens_match (ts1 @ ts2) (v @ b)"
      by simp
    then have "spec_tokens_match (CharClass negated members # (ts1 @ ts2)) (a @ b)"
      unfolding match_CharClass by blast
    then show ?thesis unfolding CharClass by (simp only: append_Cons)
  next
    case (Lit d)
    from Cons.prems(1) obtain v where a: "a = d # v" and v: "spec_tokens_match ts1 v"
      unfolding Lit match_Lit by blast
    from Cons.IH [OF v b] a
    have "a @ b = d # (v @ b) \<and> spec_tokens_match (ts1 @ ts2) (v @ b)" by simp
    then have "spec_tokens_match (Lit d # (ts1 @ ts2)) (a @ b)"
      unfolding match_Lit by blast
    then show ?thesis unfolding Lit by (simp only: append_Cons)
  qed
qed

lemma dropWhile_replicate_star:
  "v = [] \<or> hd v \<noteq> c \<Longrightarrow> dropWhile (\<lambda>x. x = c) (replicate n c @ v) = v"
proof (induction n)
  case 0
  then show ?case by (cases v) auto
next
  case (Suc n)
  then show ?case by simp
qed

lemma has_class_append_left: "\<not> has_class (u @ x) \<Longrightarrow> \<not> has_class u"
proof (induction u)
  case Nil
  then show ?case by (simp add: has_class_Nil)
next
  case (Cons c u)
  then show ?case by (auto simp: has_class_Cons split: if_splits)
qed

lemma has_class_append_right: "\<not> has_class (u @ x) \<Longrightarrow> \<not> has_class x"
proof (induction u)
  case Nil
  then show ?case by simp
next
  case (Cons c u)
  show ?case
  proof (cases "c = CHR ''[''")
    case True
    with Cons.prems have "CHR '']'' \<notin> set x" by (simp add: has_class_Cons)
    then show ?thesis by (rule no_class_no_bracket)
  next
    case False
    with Cons show ?thesis by (simp add: has_class_Cons)
  qed
qed

lemma tokens_lit:
  "c \<noteq> CHR ''*'' \<Longrightarrow> c \<noteq> CHR ''?'' \<Longrightarrow> (c = CHR ''['' \<Longrightarrow> CHR '']'' \<notin> set rest) \<Longrightarrow>
   spec_glob_tokens (c # rest) = Lit c # spec_glob_tokens rest"
  by auto

lemma tokens_one: "spec_glob_tokens (CHR ''?'' # rest) = OneChar # spec_glob_tokens rest"
  by simp

lemma tokens_segment:
  "rest = [] \<or> hd rest \<noteq> CHR ''*'' \<Longrightarrow>
   spec_glob_tokens (CHR ''*'' # rest) = AnySegment # spec_glob_tokens rest"
  by auto

lemma tokens_path:
  "rest \<noteq> [] \<Longrightarrow> hd rest = CHR ''*'' \<Longrightarrow>
   spec_glob_tokens (CHR ''*'' # rest)
     = AnyPath # spec_glob_tokens (dropWhile (\<lambda>x. x = CHR ''*'') rest)"
  by simp

lemma tokens_any_path:
  assumes "2 \<le> n" and "v = [] \<or> hd v \<noteq> CHR ''*''"
  shows "\<not> has_class (u @ replicate n CHR ''*'' @ v) \<Longrightarrow> u = [] \<or> last u \<noteq> CHR ''*'' \<Longrightarrow>
    spec_glob_tokens (u @ replicate n CHR ''*'' @ v)
      = spec_glob_tokens u @ AnyPath # spec_glob_tokens v"
proof (induction u rule: spec_glob_tokens.induct)
  case 1
  define k where "k = n - 2"
  from assms(1) have n: "n = Suc (Suc k)" by (simp add: k_def)
  have "dropWhile (\<lambda>x. x = CHR ''*'') (replicate (Suc k) CHR ''*'' @ v) = v"
    using assms(2) by (rule dropWhile_replicate_star)
  then show ?case unfolding n by simp
next
  case (2 c rest)
  let ?x = "replicate n CHR ''*'' @ v"
  from "2.prems"(2) have lst: "rest = [] \<or> last rest \<noteq> CHR ''*''" by (auto split: if_splits)
  show ?case
  proof (cases "c = CHR ''[''")
    case True
    with "2.prems"(1) have nb: "CHR '']'' \<notin> set (rest @ ?x)" by (simp add: has_class_Cons)
    then have nc: "\<not> has_class (rest @ ?x)" by (rule no_class_no_bracket)
    from nb have nb': "CHR '']'' \<notin> set rest" by simp
    have ns: "c \<noteq> CHR ''*''" "c \<noteq> CHR ''?''" using True by simp_all
    have "\<not> (c = CHR ''['' \<and> CHR '']'' \<in> set rest)" using nb' by simp
    from "2.IH"(6) [OF ns this nc lst]
    have ih: "spec_glob_tokens (rest @ ?x) = spec_glob_tokens rest @ AnyPath # spec_glob_tokens v" .
    have "spec_glob_tokens (c # rest @ ?x) = Lit c # spec_glob_tokens (rest @ ?x)"
      using ns nb by (intro tokens_lit) auto
    moreover have "spec_glob_tokens (c # rest) = Lit c # spec_glob_tokens rest"
      using ns nb' by (intro tokens_lit) auto
    ultimately show ?thesis using ih by (simp only: append_Cons)
  next
    case False
    with "2.prems"(1) have nc: "\<not> has_class (rest @ ?x)" by (simp add: has_class_Cons)
    show ?thesis
    proof (cases "c = CHR ''*''")
      case star: True
      with "2.prems"(2) lst have rne: "rest \<noteq> []" "last rest \<noteq> CHR ''*''" by auto
      show ?thesis
      proof (cases "hd rest = CHR ''*''")
        case True
        let ?d = "dropWhile (\<lambda>x. x = CHR ''*'') rest"
        from rne have ex: "last rest \<in> set rest" by simp
        have d: "dropWhile (\<lambda>x. x = CHR ''*'') (rest @ ?x) = ?d @ ?x"
          by (rule dropWhile_append1 [OF ex]) (use rne in simp)
        have dne: "?d \<noteq> []"
        proof
          assume "?d = []"
          then have "\<forall>x\<in>set rest. x = CHR ''*''" by (simp only: dropWhile_eq_Nil_conv)
          with ex have "last rest = CHR ''*''" by blast
          with rne show False by simp
        qed
        from last_appendR [OF dne, of "takeWhile (\<lambda>x. x = CHR ''*'') rest"]
        have "last rest = last ?d" by simp
        with rne dne have dl: "?d = [] \<or> last ?d \<noteq> CHR ''*''" by simp
        have ncd: "\<not> has_class (?d @ ?x)"
          using nc has_class_dropWhile_star [of "rest @ ?x"] unfolding d by simp
        have "rest \<noteq> [] \<and> hd rest = CHR ''*''" using rne True by simp
        from "2.IH"(1) [OF star this ncd dl]
        have ih: "spec_glob_tokens (?d @ ?x) = spec_glob_tokens ?d @ AnyPath # spec_glob_tokens v" .
        have "spec_glob_tokens (c # rest @ ?x) = AnyPath # spec_glob_tokens (?d @ ?x)"
          unfolding star d [symmetric] using rne True by (intro tokens_path) (auto simp: hd_append)
        moreover have "spec_glob_tokens (c # rest) = AnyPath # spec_glob_tokens ?d"
          unfolding star using rne True by (intro tokens_path) auto
        ultimately show ?thesis using ih by (simp only: append_Cons)
      next
        case False
        then have "\<not> (rest \<noteq> [] \<and> hd rest = CHR ''*'')" by simp
        from "2.IH"(2) [OF star this nc lst]
        have ih: "spec_glob_tokens (rest @ ?x) = spec_glob_tokens rest @ AnyPath # spec_glob_tokens v" .
        have "spec_glob_tokens (c # rest @ ?x) = AnySegment # spec_glob_tokens (rest @ ?x)"
          unfolding star using rne False by (intro tokens_segment) (auto simp: hd_append)
        moreover have "spec_glob_tokens (c # rest) = AnySegment # spec_glob_tokens rest"
          unfolding star using False by (intro tokens_segment) auto
        ultimately show ?thesis using ih by (simp only: append_Cons)
      qed
    next
      case nostar: False
      show ?thesis
      proof (cases "c = CHR ''?''")
        case True
        from "2.IH"(3) [OF nostar True nc lst]
        have ih: "spec_glob_tokens (rest @ ?x) = spec_glob_tokens rest @ AnyPath # spec_glob_tokens v" .
        show ?thesis unfolding True using ih by (simp only: append_Cons tokens_one)
      next
        case noq: False
        have "\<not> (c = CHR ''['' \<and> CHR '']'' \<in> set rest)" using \<open>c \<noteq> CHR ''[''\<close> by simp
        from "2.IH"(6) [OF nostar noq this nc lst]
        have ih: "spec_glob_tokens (rest @ ?x) = spec_glob_tokens rest @ AnyPath # spec_glob_tokens v" .
        have "spec_glob_tokens (c # rest @ ?x) = Lit c # spec_glob_tokens (rest @ ?x)"
          using nostar noq \<open>c \<noteq> CHR ''[''\<close> by (intro tokens_lit) auto
        moreover have "spec_glob_tokens (c # rest) = Lit c # spec_glob_tokens rest"
          using nostar noq \<open>c \<noteq> CHR ''[''\<close> by (intro tokens_lit) auto
        ultimately show ?thesis using ih by (simp only: append_Cons)
      qed
    qed
  qed
qed


lemma has_class_stars:
  "has_class (u @ replicate n CHR ''*'' @ v) = has_class (u @ v)"
proof (induction u)
  case Nil
  show ?case by (induction n) (simp_all add: has_class_Cons)
next
  case (Cons c u)
  then show ?case by (simp add: has_class_Cons)
qed

lemma re_match_anchored:
  assumes cf: "\<forall>t\<in>set ts. \<not> is_class t" and nl: "CHR 0x0A \<notin> set pth"
    and pre: "pre = RBol \<or> pre = basename_prefix"
    and m: "spec_tokens_match ts pth"
  shows "re_match (seq_of (pre # map token_item ts @ [REol])) pth"
proof -
  have start: "(0, pth) \<in> set (re_ends pre (0, pth))"
    using pre nl by (auto simp: basename_prefix_ends)
  have sub: "CHR 0x0A \<notin> set w" if "(i0, w) \<in> set (re_ends pre (0, pth))" for i0 w
    using pre
  proof
    assume "pre = RBol"
    with that nl show ?thesis by simp
  next
    assume "pre = basename_prefix"
    with that have "(i0, w) \<in> set (re_ends basename_prefix (0, pth))" by simp
    then have "w = pth \<or> (\<exists>u. pth = u @ CHR ''/'' # w)"
      unfolding basename_prefix_ends [OF nl] by blast
    with nl show ?thesis by auto
  qed
  from re_match_after_prefix [OF cf, of pre pth] sub start m show ?thesis by blast
qed

lemma double_star_examples:
  "pattern_accepts ''a/**/b'' ''a/b'' = Some False
   \<and> pattern_accepts ''a/**/b'' ''a//b'' = Some True
   \<and> pattern_accepts ''a/**/b'' ''a/x/b'' = Some True
   \<and> pattern_accepts ''a/**/b'' ''a/x/y/b'' = Some True
   \<and> pattern_accepts ''**/foo'' ''foo'' = Some False
   \<and> pattern_accepts ''**/foo'' ''x/y/foo'' = Some True
   \<and> pattern_accepts ''docs/**'' ''docs/a.md'' = Some True
   \<and> pattern_accepts ''docs/**'' ''docs/a/b.md'' = Some True"
  by code_simp

text \<open>
  Claim C3, as amended. In a pattern without a character class, a run of two or more
  \<open>*\<close> is one token, translated as the run \<open>**\<close> is; it matches any sequence of
  characters other than a newline, the \<open>/\<close> and the empty sequence included, so it
  spans any number of path segments: when the part of the pattern before the run
  matches \<open>a\<close> and the part after it matches \<open>b\<close>, the pattern matches \<open>a\<close>, any
  \<open>m\<close>, then \<open>b\<close>. A \<open>/\<close> written next to the token stays a literal: \<open>a/**/b\<close>
  matches \<open>a//b\<close>, \<open>a/x/b\<close> and \<open>a/x/y/b\<close> and not \<open>a/b\<close>; \<open>**/foo\<close> matches
  \<open>x/y/foo\<close> and not the root-level \<open>foo\<close>.
\<close>

theorem double_star_spans_segments:
  assumes "normalize_pattern p = Inr (u @ replicate n CHR ''*'' @ v)"
    and "2 \<le> n" and "u = [] \<or> last u \<noteq> CHR ''*''" and "v = [] \<or> hd v \<noteq> CHR ''*''"
    and "\<not> has_class (u @ replicate n CHR ''*'' @ v)"
    and "spec_glob_matches u a" and "spec_glob_matches v b"
    and "CHR 0x0A \<notin> set (a @ m @ b)"
  shows "pattern_accepts p (a @ m @ b) = Some True
    \<and> glob_to_regex (u @ replicate n CHR ''*'' @ v) = glob_to_regex (u @ ''**'' @ v)
    \<and> pattern_accepts ''a/**/b'' ''a/b'' = Some False
    \<and> pattern_accepts ''a/**/b'' ''a//b'' = Some True
    \<and> pattern_accepts ''a/**/b'' ''a/x/b'' = Some True
    \<and> pattern_accepts ''a/**/b'' ''a/x/y/b'' = Some True
    \<and> pattern_accepts ''**/foo'' ''foo'' = Some False
    \<and> pattern_accepts ''**/foo'' ''x/y/foo'' = Some True
    \<and> pattern_accepts ''docs/**'' ''docs/a.md'' = Some True
    \<and> pattern_accepts ''docs/**'' ''docs/a/b.md'' = Some True"
proof -
  let ?norm = "u @ replicate n CHR ''*'' @ v"
  let ?ts = "spec_glob_tokens ?norm"
  have ts: "?ts = spec_glob_tokens u @ AnyPath # spec_glob_tokens v"
    using tokens_any_path [OF assms(2,4,5,3)] .
  have cf: "\<forall>t\<in>set ?ts. \<not> is_class t" using assms(5) class_free_tokens by blast
  have "spec_tokens_match (AnyPath # spec_glob_tokens v) (m @ b)"
    using assms(7) unfolding match_AnyPath spec_glob_matches_def by blast
  with assms(6) have m: "spec_tokens_match ?ts (a @ m @ b)"
    unfolding ts spec_glob_matches_def by (rule spec_tokens_match_append)
  define pre where "pre = (if CHR ''/'' \<in> set ?norm then RBol else basename_prefix)"
  have "re_compile (regex_text ?norm) = Inr (seq_of (pre # map token_item ?ts @ [REol]))"
    using re_compile_class_free [OF assms(5)] by (simp add: regex_text_def pre_def)
  then have "compile_pattern p = Inr \<lparr>raw = p, normalized = ?norm,
      regex = seq_of (pre # map token_item ?ts @ [REol])\<rparr>"
    using compile_pattern_normalized [OF assms(1)] by simp
  then have "pattern_accepts p (a @ m @ b) =
      Some (re_match (seq_of (pre # map token_item ?ts @ [REol])) (a @ m @ b))"
    by (simp add: pattern_accepts_def CompiledPattern_matches_def)
  moreover have "re_match (seq_of (pre # map token_item ?ts @ [REol])) (a @ m @ b)"
    using cf assms(8) _ m by (rule re_match_anchored) (simp add: pre_def)
  ultimately have 1: "pattern_accepts p (a @ m @ b) = Some True" by simp
  have nc2: "\<not> has_class (u @ replicate 2 CHR ''*'' @ v)"
    using assms(5) unfolding has_class_stars .
  have ts2: "spec_glob_tokens (u @ replicate 2 CHR ''*'' @ v)
      = spec_glob_tokens u @ AnyPath # spec_glob_tokens v"
    using tokens_any_path [OF _ assms(4) nc2 assms(3)] by simp
  have "glob_to_regex (u @ replicate 2 CHR ''*'' @ v) = glob_to_regex ?norm"
    unfolding glob_to_regex_class_free [OF nc2] glob_to_regex_class_free [OF assms(5)] ts ts2 ..
  moreover have "replicate 2 CHR ''*'' = ''**''" by (simp add: numeral_2_eq_2)
  ultimately have 2: "glob_to_regex ?norm = glob_to_regex (u @ ''**'' @ v)" by simp
  from 1 2 double_star_examples show ?thesis by simp
qed

theorem double_star_spans_segments_witness:
  "normalize_pattern ''src/***/test_*.py'' = Inr ''src/***/test_*.py''
   \<and> spec_glob_matches ''src/'' ''src/'' \<and> spec_glob_matches ''/test_*.py'' ''/test_a.py''
   \<and> pattern_accepts ''src/***/test_*.py'' ''src/pkg/sub/test_a.py'' = Some True
   \<and> glob_to_regex ''src/***/test_*.py'' = glob_to_regex ''src/**/test_*.py''"
proof -
  have h: "normalize_pattern ''src/***/test_*.py'' = Inr (''src/'' @ replicate 3 CHR ''*'' @ ''/test_*.py'')"
    "2 \<le> (3::nat)" "''src/'' = [] \<or> last ''src/'' \<noteq> CHR ''*''"
    "''/test_*.py'' = [] \<or> hd ''/test_*.py'' \<noteq> CHR ''*''"
    "\<not> has_class (''src/'' @ replicate 3 CHR ''*'' @ ''/test_*.py'')"
    "spec_glob_matches ''src/'' ''src/''" "spec_glob_matches ''/test_*.py'' ''/test_a.py''"
    "CHR 0x0A \<notin> set (''src/'' @ ''pkg/sub'' @ ''/test_a.py'')"
    by code_simp+
  have r: "''src/'' @ replicate 3 CHR ''*'' @ ''/test_*.py'' = ''src/***/test_*.py''"
    by (simp add: numeral_3_eq_3)
  from double_star_spans_segments [OF h] h(6,7) show ?thesis
    unfolding r using h(1) [unfolded r] by simp
qed

text \<open>
  The examples of the claim as stated fail: the \<open>/\<close> on both sides of \<open>**\<close> in
  \<open>a/**/b\<close>, and the \<open>/\<close> after it in \<open>**/foo\<close>, must be in the path.
\<close>

theorem double_star_spans_segments_counterexample:
  "pattern_accepts ''a/**/b'' ''a/b'' = Some False \<and> pattern_accepts ''**/foo'' ''foo'' = Some False"
  by code_simp


section \<open>Properties of the rule-file parser\<close>

text \<open>
  A position of a line is inside quotes when an odd number of quote characters
  (\<open>'\<close> or \<open>"\<close>) stand before it. A \<open>#\<close> starts a comment when it stands at the start
  of the line or after a whitespace character, and not inside quotes.
\<close>

definition is_quote :: "char \<Rightarrow> bool" where
  "is_quote c = (c = CHR 0x27 \<or> c = CHR 0x22)"

definition inside_quotes :: "string \<Rightarrow> nat \<Rightarrow> bool" where
  "inside_quotes ln i = odd (length (filter is_quote (take i ln)))"

definition starts_comment :: "string \<Rightarrow> nat \<Rightarrow> bool" where
  "starts_comment ln i =
     (i < length ln \<and> ln ! i = CHR ''#'' \<and> (i = 0 \<or> isspace (ln ! (i - 1)))
      \<and> \<not> inside_quotes ln i)"

definition first_comment_start :: "string \<Rightarrow> nat \<Rightarrow> bool" where
  "first_comment_start ln i =
     (starts_comment ln i \<and> list_all (\<lambda>j. \<not> starts_comment ln j) [0..<i])"

definition no_comment_start :: "string \<Rightarrow> bool" where
  "no_comment_start ln = list_all (\<lambda>i. \<not> starts_comment ln i) [0..<length ln]"

text \<open>What is left of a line once its comment and the whitespace around it are removed.\<close>

definition line_content :: "string \<Rightarrow> string" where
  "line_content raw_line = strip (strip_inline_comment raw_line)"

lemma starts_comment_at_end_of_seen:
  "starts_comment (seen @ ch # rest) (length seen) \<longleftrightarrow>
     ch = CHR ''#'' \<and> (seen = [] \<or> isspace (last seen)) \<and> \<not> odd (length (filter is_quote seen))"
proof (cases seen rule: rev_cases)
  case Nil
  then show ?thesis by (simp add: starts_comment_def inside_quotes_def)
next
  case (snoc ys y)
  then show ?thesis by (simp add: starts_comment_def inside_quotes_def nth_append)
qed

lemma strip_inline_comment_loop_spec:
  assumes "in_quote = odd (length (filter is_quote seen))"
    and "\<forall>j<length seen. \<not> starts_comment (seen @ rest) j"
  shows "(starts_comment (seen @ rest) i \<and> (\<forall>j<i. \<not> starts_comment (seen @ rest) j)
            \<longrightarrow> strip_inline_comment_loop in_quote seen rest = rstrip (take i (seen @ rest)))
       \<and> ((\<forall>i. \<not> starts_comment (seen @ rest) i)
            \<longrightarrow> strip_inline_comment_loop in_quote seen rest = rstrip (seen @ rest))"
  using assms
proof (induction rest arbitrary: in_quote seen)
  case Nil
  have "\<not> starts_comment seen i" using Nil.prems(2)
    by (cases "i < length seen") (auto simp: starts_comment_def)
  then show ?case by simp
next
  case (Cons ch rest)
  let ?ln = "seen @ ch # rest"
  let ?q1 = "if ch = CHR 0x27 \<or> ch = CHR 0x22 then \<not> in_quote else in_quote"
  have q1: "?q1 = odd (length (filter is_quote (seen @ [ch])))"
  proof -
    have "(ch = CHR 0x27 \<or> ch = CHR 0x22) = is_quote ch" by (simp add: is_quote_def)
    then show ?thesis using Cons.prems(1) by simp
  qed
  show ?case
  proof (cases "starts_comment ?ln (length seen)")
    case True
    then have c: "ch = CHR ''#''" "seen = [] \<or> isspace (last seen)" "\<not> in_quote"
      using Cons.prems(1) by (simp_all add: starts_comment_at_end_of_seen)
    then have r: "strip_inline_comment_loop in_quote seen (ch # rest) = rstrip seen"
      by (simp add: Let_def)
    have "i = length seen" if "starts_comment ?ln i" "\<forall>j<i. \<not> starts_comment ?ln j"
    proof -
      have "\<not> i < length seen" using that(1) Cons.prems(2) by blast
      moreover have "\<not> length seen < i" using that(2) True by blast
      ultimately show ?thesis by simp
    qed
    with True r show ?thesis by auto
  next
    case False
    then have ncond: "\<not> (ch = CHR ''#'' \<and> \<not> in_quote \<and> (seen = [] \<or> isspace (last seen)))"
      using Cons.prems(1) by (auto simp: starts_comment_at_end_of_seen)
    have r: "strip_inline_comment_loop in_quote seen (ch # rest)
        = strip_inline_comment_loop ?q1 (seen @ [ch]) rest"
    proof (cases "ch = CHR ''#''")
      case True
      with ncond show ?thesis by (auto simp: Let_def)
    next
      case False
      then show ?thesis by (simp add: Let_def)
    qed
    have prev: "\<forall>j<length (seen @ [ch]). \<not> starts_comment ((seen @ [ch]) @ rest) j"
      using Cons.prems(2) False by (auto simp: less_Suc_eq)
    from Cons.IH [OF q1 prev] show ?thesis unfolding r by simp
  qed
qed

lemma strip_inline_comment_first:
  "first_comment_start ln i \<Longrightarrow> strip_inline_comment ln = rstrip (take i ln)"
  using strip_inline_comment_loop_spec [of False "[]" ln i]
  by (simp add: strip_inline_comment_def first_comment_start_def list_all_iff)

lemma strip_inline_comment_none:
  "no_comment_start ln \<Longrightarrow> strip_inline_comment ln = rstrip ln"
proof -
  assume "no_comment_start ln"
  then have "\<not> starts_comment ln i" for i
    by (cases "i < length ln") (auto simp: no_comment_start_def list_all_iff starts_comment_def)
  with strip_inline_comment_loop_spec [of False "[]" ln] show ?thesis
    by (simp add: strip_inline_comment_def)
qed


lemma comment_cases: "(\<exists>i. first_comment_start ln i) \<or> no_comment_start ln"
proof (cases "\<exists>i. starts_comment ln i")
  case True
  define k where "k = (LEAST i. starts_comment ln i)"
  from True have "starts_comment ln k" unfolding k_def by (metis LeastI)
  moreover have "\<not> starts_comment ln j" if "j < k" for j
    using that not_less_Least unfolding k_def by blast
  ultimately have "first_comment_start ln k"
    by (simp add: first_comment_start_def list_all_iff)
  then show ?thesis by blast
next
  case False
  then show ?thesis by (simp add: no_comment_start_def list_all_iff)
qed

lemma strip_all_space: "strip s = [] \<longleftrightarrow> (\<forall>c\<in>set s. isspace c)"
proof
  assume e: "strip s = []"
  have "dropWhile isspace s = []"
  proof (rule ccontr)
    assume ne: "dropWhile isspace s \<noteq> []"
    then have "\<not> isspace (hd (dropWhile isspace s))" by (rule hd_dropWhile)
    moreover from e have "dropWhile isspace (rev (dropWhile isspace s)) = []"
      by (simp add: strip_def rstrip_def lstrip_def)
    then have "\<forall>c\<in>set (rev (dropWhile isspace s)). isspace c"
      by (rule dropWhile_eq_Nil_conv [THEN iffD1])
    ultimately show False using ne by (metis hd_in_set set_rev)
  qed
  then show "\<forall>c\<in>set s. isspace c" by (rule dropWhile_eq_Nil_conv [THEN iffD1])
next
  assume "\<forall>c\<in>set s. isspace c"
  then have d: "dropWhile isspace s = []" by (rule dropWhile_eq_Nil_conv [THEN iffD2])
  show "strip s = []" unfolding strip_def rstrip_def lstrip_def d by simp
qed

lemma rstrip_all_space: "\<forall>c\<in>set s. isspace c \<Longrightarrow> rstrip s = []"
proof -
  assume "\<forall>c\<in>set s. isspace c"
  then have "\<forall>c\<in>set (rev s). isspace c" by simp
  then have d: "dropWhile isspace (rev s) = []" by (rule dropWhile_eq_Nil_conv [THEN iffD2])
  show ?thesis unfolding rstrip_def d by simp
qed

lemma rstrip_prefix: "\<exists>t. s = rstrip s @ t"
proof -
  have "rev s = takeWhile isspace (rev s) @ dropWhile isspace (rev s)" by simp
  then have "s = rev (dropWhile isspace (rev s)) @ rev (takeWhile isspace (rev s))"
    by (metis rev_append rev_rev_ident)
  then show ?thesis unfolding rstrip_def by blast
qed

lemma strip_inline_comment_prefix:
  "\<exists>k\<le>length ln. strip_inline_comment ln = rstrip (take k ln)"
proof -
  from comment_cases [of ln] show ?thesis
  proof
    assume "\<exists>i. first_comment_start ln i"
    then obtain i where i: "first_comment_start ln i" by blast
    then have "i \<le> length ln" by (simp add: first_comment_start_def starts_comment_def)
    with strip_inline_comment_first [OF i] show ?thesis by blast
  next
    assume "no_comment_start ln"
    then have "strip_inline_comment ln = rstrip (take (length ln) ln)"
      by (simp add: strip_inline_comment_none)
    then show ?thesis by blast
  qed
qed

lemma skip_blank: "strip raw_line = [] \<Longrightarrow> line_content raw_line = []"
proof -
  assume "strip raw_line = []"
  then have sp: "\<forall>c\<in>set raw_line. isspace c" by (rule strip_all_space [THEN iffD1])
  obtain k where "strip_inline_comment raw_line = rstrip (take k raw_line)"
    using strip_inline_comment_prefix by blast
  moreover have "\<forall>c\<in>set (take k raw_line). isspace c" using sp by (auto dest: in_set_takeD)
  ultimately have "strip_inline_comment raw_line = []" by (simp add: rstrip_all_space)
  then show ?thesis by (simp add: line_content_def strip_def lstrip_def rstrip_def)
qed

lemma skip_hash:
  assumes "startswith (strip raw_line) ''#''"
  shows "line_content raw_line = []"
proof -
  define ws where "ws = takeWhile isspace raw_line"
  define d where "d = dropWhile isspace raw_line"
  have raw: "raw_line = ws @ d" by (simp add: ws_def d_def)
  have sp: "\<forall>c\<in>set ws. isspace c" unfolding ws_def by (auto dest: set_takeWhileD)
  from assms have "take 1 (rstrip d) = ''#''"
    by (simp add: strip_def lstrip_def d_def startswith_def)
  then obtain t where st: "rstrip d = CHR ''#'' # t"
    by (cases "rstrip d") simp_all
  obtain t' where "d = rstrip d @ t'" using rstrip_prefix by blast
  with st have d: "d = CHR ''#'' # t @ t'" by simp
  let ?k = "length ws"
  have sq: "\<not> is_quote c \<and> c \<noteq> CHR ''#''" if "isspace c" for c
    using that unfolding is_quote_def isspace_def by auto
  have nq: "filter is_quote ws = []"
    unfolding filter_empty_conv using sp sq by blast
  have prev: "?k = 0 \<or> isspace (raw_line ! (?k - 1))"
  proof (cases ws rule: rev_cases)
    case Nil
    then show ?thesis by simp
  next
    case (snoc ys y)
    with sp have "isspace y" by simp
    with snoc show ?thesis by (simp add: raw nth_append)
  qed
  have "starts_comment raw_line ?k"
    using prev nq by (simp add: starts_comment_def inside_quotes_def raw d)
  moreover have "\<not> starts_comment raw_line j" if "j < ?k" for j
  proof -
    from that have "raw_line ! j \<in> set ws" by (simp add: raw nth_append)
    with sp have "isspace (raw_line ! j)" by blast
    then have "raw_line ! j \<noteq> CHR ''#''" using sq by blast
    then show ?thesis by (simp add: starts_comment_def)
  qed
  ultimately have "first_comment_start raw_line ?k"
    by (simp add: first_comment_start_def list_all_iff)
  then have "strip_inline_comment raw_line = rstrip (take ?k raw_line)"
    by (rule strip_inline_comment_first)
  also have "\<dots> = []" using sp by (simp add: raw rstrip_all_space)
  finally show ?thesis by (simp add: line_content_def strip_def lstrip_def rstrip_def)
qed

lemma parse_lines_step:
  "parse_lines src idx (l # rest) acc =
     (if line_content l = [] then parse_lines src (idx + 1) rest acc
      else if length (split (line_content l)) \<noteq> 2 then Inl (ExpectedTwoColumns src idx l)
      else if strip (split (line_content l) ! 1) = [] then Inl (EmptyServiceName src idx)
      else
        (case compile_pattern (strip (split (line_content l) ! 0)) of
           Inl e \<Rightarrow> Inl (PatternError src idx e)
         | Inr c \<Rightarrow>
             parse_lines src (idx + 1) rest
               (acc @ [\<lparr>pattern = strip (split (line_content l) ! 0),
                        service = strip (split (line_content l) ! 1), line = idx,
                        source = src, compiled = c\<rparr>])))"
proof (cases "strip l = [] \<or> startswith (strip l) ''#''")
  case True
  then have "line_content l = []" using skip_blank skip_hash by blast
  moreover from True have "parse_lines src idx (l # rest) acc = parse_lines src (idx + 1) rest acc"
    by simp
  ultimately show ?thesis by (simp del: parse_lines.simps)
next
  case False
  show ?thesis
  proof (cases "line_content l = []")
    case True
    with False have "parse_lines src idx (l # rest) acc = parse_lines src (idx + 1) rest acc"
      by (simp add: line_content_def)
    with True show ?thesis by (simp del: parse_lines.simps)
  next
    case ne: False
    define parts where "parts = split (line_content l)"
    have two: "length parts = 2 \<longleftrightarrow> (\<exists>p0 p1. parts = [p0, p1])"
      by (cases parts rule: list.exhaust; simp; cases "tl parts"; auto simp: length_Suc_conv)
    show ?thesis
    proof (cases "length parts = 2")
      case True
      with two obtain p0 p1 where "parts = [p0, p1]" by blast
      then have sp: "split (line_content l) = [p0, p1]" by (simp add: parts_def)
      have "parse_lines src idx (l # rest) acc =
         (if strip p1 = [] then Inl (EmptyServiceName src idx)
          else
            (case compile_pattern (strip p0) of
               Inl e \<Rightarrow> Inl (PatternError src idx e)
             | Inr c \<Rightarrow>
                 parse_lines src (idx + 1) rest
                   (acc @ [\<lparr>pattern = strip p0, service = strip p1, line = idx,
                            source = src, compiled = c\<rparr>])))"
        using False ne sp by (simp add: line_content_def)
      then show ?thesis using ne unfolding sp
        by (simp del: parse_lines.simps cong: sum.case_cong)
    next
      case False
      with two have "\<nexists>p0 p1. parts = [p0, p1]" by simp
      then have "(case parts of [p0, p1] \<Rightarrow> f p0 p1 | _ \<Rightarrow> g) = g" for f and g :: "ParseError + Rule list"
        by (auto split: list.splits)
      then have "parse_lines src idx (l # rest) acc = Inl (ExpectedTwoColumns src idx l)"
        using \<open>\<not> (strip l = [] \<or> startswith (strip l) ''#'')\<close> ne
        by (simp add: line_content_def parts_def)
      then show ?thesis using ne False by (simp add: parts_def del: parse_lines.simps)
    qed
  qed
qed

declare parse_lines.simps(2) [simp del]

lemma parse_lines_two_columns:
  "parse_lines src idx lines acc = Inr rs \<Longrightarrow> raw_line \<in> set lines \<Longrightarrow>
   line_content raw_line = [] \<or> length (split (line_content raw_line)) = 2"
proof (induction lines arbitrary: idx acc)
  case Nil
  then show ?case by simp
next
  case (Cons l rest)
  show ?case
  proof (cases "raw_line = l")
    case True
    from Cons.prems(1) show ?thesis unfolding True parse_lines_step
      by (cases "line_content l = []"; cases "length (split (line_content l)) = 2") simp_all
  next
    case False
    with Cons.prems(2) have mem: "raw_line \<in> set rest" by simp
    have "\<exists>idx' acc'. parse_lines src idx' rest acc' = Inr rs"
    proof (cases "line_content l = []")
      case True
      with Cons.prems(1) show ?thesis unfolding parse_lines_step by auto
    next
      case ne: False
      show ?thesis
      proof (cases "compile_pattern (strip (split (line_content l) ! 0))")
        case (Inl e)
        with Cons.prems(1) ne show ?thesis unfolding parse_lines_step
          by (simp split: if_splits)
      next
        case (Inr c)
        with Cons.prems(1) ne show ?thesis unfolding parse_lines_step
          by (simp split: if_splits) blast
      qed
    qed
    then obtain idx' acc' where "parse_lines src idx' rest acc' = Inr rs" by blast
    from Cons.IH [OF this mem] show ?thesis .
  qed
qed


text \<open>The line \<open>a' #b\<close>: its \<open>#\<close> follows a space, inside quotes.\<close>

definition quoted_hash_line :: string where
  "quoted_hash_line = ''a'' @ [CHR 0x27] @ '' #b''"

lemma comment_examples:
  "strip_inline_comment ''foo/**  api  # comment'' = ''foo/**  api''
   \<and> strip_inline_comment ''docs/#/foo api'' = ''docs/#/foo api''
   \<and> map_sum id (map (\<lambda>r. (pattern r, service r)))
       (parse_serviceowners_text ''# rules'' ''SERVICEOWNERS'') = Inr []
   \<and> parse_serviceowners_text ''src/** api web'' ''SERVICEOWNERS''
       = Inl (ExpectedTwoColumns ''SERVICEOWNERS'' 1 ''src/** api web'')"
  by code_simp

text \<open>
  Claim C9, as amended. In the rule-file parser the comment of a line starts at its
  first \<open>#\<close> that stands at the start of the line or after a whitespace character and
  is not inside quotes; the line is cut there, and a line with no such \<open>#\<close> is kept
  whole. A blank line and a line whose first character that is not whitespace is
  \<open>#\<close> leave nothing. Every line that leaves something must split into exactly two
  whitespace-separated columns, otherwise parsing fails.
\<close>

theorem rule_file_comments:
  "(first_comment_start ln i \<longrightarrow> strip_inline_comment ln = rstrip (take i ln))
   \<and> (no_comment_start ln \<longrightarrow> strip_inline_comment ln = rstrip ln)
   \<and> (strip raw_line = [] \<or> startswith (strip raw_line) ''#'' \<longrightarrow> line_content raw_line = [])
   \<and> (raw_line \<in> set (splitlines text) \<and> line_content raw_line \<noteq> []
        \<and> length (split (line_content raw_line)) \<noteq> 2
      \<longrightarrow> (\<exists>e. parse_serviceowners_text text src = Inl e))"
proof -
  have "\<exists>e. parse_serviceowners_text text src = Inl e"
    if "raw_line \<in> set (splitlines text)" "line_content raw_line \<noteq> []"
      "length (split (line_content raw_line)) \<noteq> 2"
  proof (cases "parse_serviceowners_text text src")
    case (Inl e)
    then show ?thesis by blast
  next
    case (Inr rs)
    then have "parse_lines src 1 (splitlines text) [] = Inr rs"
      by (simp add: parse_serviceowners_text_def)
    from parse_lines_two_columns [OF this that(1)] that(2,3) show ?thesis by simp
  qed
  then show ?thesis
    using strip_inline_comment_first strip_inline_comment_none skip_blank skip_hash by blast
qed

theorem rule_file_comments_witness:
  "first_comment_start ''foo/**  api  # comment'' 13
   \<and> strip_inline_comment ''foo/**  api  # comment'' = ''foo/**  api''
   \<and> no_comment_start ''docs/#/foo api''
   \<and> strip_inline_comment ''docs/#/foo api'' = ''docs/#/foo api''
   \<and> line_content ''  # rules'' = []
   \<and> (\<exists>e. parse_serviceowners_text ''src/** api web'' ''SERVICEOWNERS'' = Inl e)"
proof -
  have 1: "first_comment_start ''foo/**  api  # comment'' 13" by code_simp
  have 2: "no_comment_start ''docs/#/foo api''" by code_simp
  have 3: "startswith (strip ''  # rules'') ''#''" by code_simp
  have 4: "''src/** api web'' \<in> set (splitlines ''src/** api web'')"
    "line_content ''src/** api web'' \<noteq> []"
    "length (split (line_content ''src/** api web'')) \<noteq> 2" by code_simp+
  have r: "rstrip (take 13 ''foo/**  api  # comment'') = ''foo/**  api''"
    "rstrip ''docs/#/foo api'' = ''docs/#/foo api''" by code_simp+
  from rule_file_comments [of "''foo/**  api  # comment''" 13] 1 r
  have a: "strip_inline_comment ''foo/**  api  # comment'' = ''foo/**  api''" by simp
  from rule_file_comments [of "''docs/#/foo api''"] 2 r
  have b: "strip_inline_comment ''docs/#/foo api'' = ''docs/#/foo api''" by simp
  from rule_file_comments [of _ _ "''  # rules''"] 3
  have c: "line_content ''  # rules'' = []" by blast
  from rule_file_comments [of _ _ "''src/** api web''" "''src/** api web''" "''SERVICEOWNERS''"] 4
  have d: "\<exists>e. parse_serviceowners_text ''src/** api web'' ''SERVICEOWNERS'' = Inl e" by blast
  from 1 2 a b c d show ?thesis by blast
qed

text \<open>
  The claim as stated makes every \<open>#\<close> after whitespace a comment start. The \<open>#\<close> of
  \<open>a' #b\<close> follows a space and starts none: the line is kept whole and parses to the
  rule with pattern \<open>a'\<close> and service \<open>#b\<close>.
\<close>

theorem rule_file_comments_counterexample:
  "quoted_hash_line ! 3 = CHR ''#'' \<and> isspace (quoted_hash_line ! 2)
   \<and> strip_inline_comment quoted_hash_line = quoted_hash_line
   \<and> map_sum id (map (\<lambda>r. (pattern r, service r)))
       (parse_serviceowners_text quoted_hash_line ''SERVICEOWNERS'')
     = Inr [(''a'' @ [CHR 0x27], ''#b'')]"
  by code_simp


section \<open>impact.py\<close>

text \<open>
  The dictionaries of an \<open>ImpactReport\<close> are maps: two dictionaries are equal in
  Python when they hold the same values under the same keys, whatever the order of
  insertion.
\<close>

record ImpactReport =
  services_to_files :: "string \<rightharpoonup> string list"
  unmapped_files :: "string list"
  overlaps :: "string \<rightharpoonup> string list"

text \<open>
  The loop of \<open>compute_impact\<close> over the changed files; the state is the three
  collections it fills.
\<close>

fun impact_loop :: "OwnershipIndex \<Rightarrow> string list
    \<Rightarrow> (string \<rightharpoonup> string list) \<times> string list \<times> (string \<rightharpoonup> string list)
    \<Rightarrow> (string \<rightharpoonup> string list) \<times> string list \<times> (string \<rightharpoonup> string list)" where
  "impact_loop index [] st = st"
| "impact_loop index (p # ps) (s2f, unmapped, ov) =
     (let m = OwnershipIndex_match index p in
      case Match_service m of
        None \<Rightarrow> impact_loop index ps (s2f, unmapped @ [p], ov)
      | Some svc \<Rightarrow>
          impact_loop index ps
            (s2f(svc \<mapsto> (case s2f svc of None \<Rightarrow> [] | Some files \<Rightarrow> files) @ [p]),
             unmapped,
             if length (matches m) > 1 then ov(p \<mapsto> map service (matches m)) else ov))"

definition compute_impact :: "OwnershipIndex \<Rightarrow> string list \<Rightarrow> ImpactReport" where
  "compute_impact index changed_files =
     (case impact_loop index changed_files (Map.empty, [], Map.empty) of
        (s2f, unmapped, ov) \<Rightarrow>
          \<lparr>services_to_files = (\<lambda>svc. map_option (\<lambda>files. sort (remdups files)) (s2f svc)),
           unmapped_files = sort (remdups unmapped),
           overlaps = ov\<rparr>)"

section \<open>Properties of the impact report\<close>

text \<open>The service that owns a path, if any: \<open>index.match(p).service\<close>.\<close>

definition owner_of :: "OwnershipIndex \<Rightarrow> string \<Rightarrow> string option" where
  "owner_of index p = Match_service (OwnershipIndex_match index p)"

lemma impact_loop_buckets:
  "impact_loop index ps (s2f, unmapped, ov) = (s2f', unmapped', ov') \<Longrightarrow>
   unmapped' = unmapped @ filter (\<lambda>p. owner_of index p = None) ps
   \<and> (\<forall>svc. s2f' svc =
        (if filter (\<lambda>p. owner_of index p = Some svc) ps = [] then s2f svc
         else Some ((case s2f svc of None \<Rightarrow> [] | Some files \<Rightarrow> files)
                     @ filter (\<lambda>p. owner_of index p = Some svc) ps)))"
proof (induction ps arbitrary: s2f unmapped ov)
  case Nil
  then show ?case by simp
next
  case (Cons p ps)
  show ?case
  proof (cases "owner_of index p")
    case None
    with Cons.prems have "impact_loop index ps (s2f, unmapped @ [p], ov) = (s2f', unmapped', ov')"
      by (simp add: owner_of_def Let_def)
    from Cons.IH [OF this] None show ?thesis by simp
  next
    case (Some svc0)
    let ?s2f = "s2f(svc0 \<mapsto> (case s2f svc0 of None \<Rightarrow> [] | Some files \<Rightarrow> files) @ [p])"
    from Some Cons.prems obtain ov1 where
      "impact_loop index ps (?s2f, unmapped, ov1) = (s2f', unmapped', ov')"
      by (simp add: owner_of_def Let_def)
    from Cons.IH [OF this] Some show ?thesis by auto
  qed
qed

lemma sort_remdups_set: "set xs = set ys \<Longrightarrow> sort (remdups xs) = sort (remdups ys)"
  by (metis sorted_list_of_set_sort_remdups)

lemma compute_impact_buckets:
  "services_to_files (compute_impact index ps) svc =
     (if filter (\<lambda>p. owner_of index p = Some svc) ps = [] then None
      else Some (sort (remdups (filter (\<lambda>p. owner_of index p = Some svc) ps))))"
  "unmapped_files (compute_impact index ps) = sort (remdups (filter (\<lambda>p. owner_of index p = None) ps))"
proof -
  obtain s2f unmapped ov where l: "impact_loop index ps (Map.empty, [], Map.empty) = (s2f, unmapped, ov)"
    by (cases "impact_loop index ps (Map.empty, [], Map.empty)") auto
  note b = impact_loop_buckets [OF l]
  show "services_to_files (compute_impact index ps) svc =
     (if filter (\<lambda>p. owner_of index p = Some svc) ps = [] then None
      else Some (sort (remdups (filter (\<lambda>p. owner_of index p = Some svc) ps))))"
    using b by (simp add: compute_impact_def l)
  show "unmapped_files (compute_impact index ps) = sort (remdups (filter (\<lambda>p. owner_of index p = None) ps))"
    using b by (simp add: compute_impact_def l)
qed

lemma compute_impact_same_set:
  assumes "set xs = set ys"
  shows "services_to_files (compute_impact index xs) = services_to_files (compute_impact index ys)"
    and "unmapped_files (compute_impact index xs) = unmapped_files (compute_impact index ys)"
proof -
  have f: "set (filter P xs) = set (filter P ys)" for P :: "string \<Rightarrow> bool"
    using assms by simp
  have e: "filter P xs = [] \<longleftrightarrow> filter P ys = []" for P :: "string \<Rightarrow> bool"
    using f [of P] by (metis set_empty)
  show "services_to_files (compute_impact index xs) = services_to_files (compute_impact index ys)"
  proof
    fix svc
    show "services_to_files (compute_impact index xs) svc = services_to_files (compute_impact index ys) svc"
      unfolding compute_impact_buckets using e sort_remdups_set [OF f] by simp
  qed
  show "unmapped_files (compute_impact index xs) = unmapped_files (compute_impact index ys)"
    unfolding compute_impact_buckets using sort_remdups_set [OF f] by simp
qed

text \<open>
  Claim C5. \<open>compute_impact\<close> does not depend on the order of its input: for an index
  and two sequences of paths that are permutations of each other (paths may repeat),
  the mappings \<open>services_to_files\<close> are equal and the lists \<open>unmapped_files\<close> are
  equal; the bucket of every service, and the unmapped bucket, is sorted and has no
  duplicate.
\<close>

theorem compute_impact_order_independent:
  assumes "mset xs = mset ys"
  shows "services_to_files (compute_impact index xs) = services_to_files (compute_impact index ys)
    \<and> unmapped_files (compute_impact index xs) = unmapped_files (compute_impact index ys)
    \<and> (\<forall>svc files. services_to_files (compute_impact index xs) svc = Some files
          \<longrightarrow> sorted files \<and> distinct files)
    \<and> sorted (unmapped_files (compute_impact index xs))
    \<and> distinct (unmapped_files (compute_impact index xs))"
proof -
  from assms have "set xs = set ys" by (rule mset_eq_setD)
  from compute_impact_same_set [OF this, of index] show ?thesis
    by (auto simp: compute_impact_buckets split: if_splits)
qed


theorem compute_impact_order_independent_witness:
  "mset [''b.py'', ''a.py'', ''b.py''] = mset [''a.py'', ''b.py'', ''b.py'']
   \<and> unmapped_files (compute_impact \<lparr>rules = []\<rparr> [''b.py'', ''a.py'', ''b.py''])
     = unmapped_files (compute_impact \<lparr>rules = []\<rparr> [''a.py'', ''b.py'', ''b.py''])
   \<and> unmapped_files (compute_impact \<lparr>rules = []\<rparr> [''a.py'', ''b.py'', ''b.py''])
     = [''a.py'', ''b.py'']"
proof -
  have h: "mset [''b.py'', ''a.py'', ''b.py''] = mset [''a.py'', ''b.py'', ''b.py'']" by simp
  have "unmapped_files (compute_impact \<lparr>rules = []\<rparr> [''a.py'', ''b.py'', ''b.py''])
     = [''a.py'', ''b.py'']" by code_simp
  with h compute_impact_order_independent [OF h, of "\<lparr>rules = []\<rparr>"] show ?thesis by simp
qed

text \<open>The rules of the test \<open>test_compute_impact_groups_by_service_and_unmapped\<close>.\<close>

definition impact_example :: string where
  "impact_example = ''apps/api/** api'' @ [CHR 0x0A] @ ''apps/web/** web'' @ [CHR 0x0A]"

lemma impact_example_report:
  "map_sum id
     (\<lambda>rs. let r = compute_impact \<lparr>rules = rs\<rparr>
                      [''apps/web/b.ts'', ''README.md'', ''apps/api/z.py'', ''apps/api/a.py'',
                       ''apps/api/z.py'']
           in (services_to_files r ''api'', services_to_files r ''web'',
               services_to_files r ''core'', unmapped_files r))
     (parse_serviceowners_text impact_example ''SERVICEOWNERS'')
   = Inr (Some [''apps/api/a.py'', ''apps/api/z.py''], Some [''apps/web/b.ts''], None,
          [''README.md''])"
  by code_simp


section \<open>Python strings, continued\<close>

text \<open>\<open>sep.join(xs)\<close>.\<close>

fun join :: "string \<Rightarrow> string list \<Rightarrow> string" where
  "join sep [] = []"
| "join sep [x] = x"
| "join sep (x # xs) = x @ sep @ join sep xs"

text \<open>\<open>s.split(c)\<close> for a single character \<open>c\<close>: the pieces between the separators.\<close>

fun split_char_from :: "char \<Rightarrow> string \<Rightarrow> string \<Rightarrow> string list" where
  "split_char_from c cur [] = [cur]"
| "split_char_from c cur (x # xs) =
     (if x = c then cur # split_char_from c [] xs else split_char_from c (cur @ [x]) xs)"

definition split_char :: "char \<Rightarrow> string \<Rightarrow> string list" where
  "split_char c s = split_char_from c [] s"

text \<open>\<open>str(n)\<close> for an integer, as an f-string writes it.\<close>

function str_nat :: "nat \<Rightarrow> string" where
  "str_nat n =
     (if n < 10 then [char_of (48 + n)] else str_nat (n div 10) @ [char_of (48 + n mod 10)])"
  by pat_completeness auto
termination
  by (relation "measure id") auto

definition str_int :: "int \<Rightarrow> string" where
  "str_int i = (if i < 0 then ''-'' @ str_nat (nat (- i)) else str_nat (nat i))"

text \<open>A value between apostrophes, as in the f-string \<open>'{x}'\<close>.\<close>

definition in_apostrophes :: "string \<Rightarrow> string" where
  "in_apostrophes s = [CHR 0x27] @ s @ [CHR 0x27]"


section \<open>errors.py and gitutils.py\<close>

text \<open>
  The exceptions that reach \<open>lint_rules\<close>: \<open>GitError\<close> with its message, and any other
  exception that \<open>subprocess.run\<close> raises and \<open>_run_git\<close> does not catch.
\<close>

datatype exn = GitError string | OtherException string

text \<open>
  The outcome of \<open>subprocess.run(["git", *args], cwd=...)\<close> with \<open>check=True\<close>: the
  output of the finished process, \<open>FileNotFoundError\<close>, \<open>CalledProcessError\<close> (with
  \<open>stderr\<close>, \<open>stdout\<close> and \<open>str(e)\<close>), or another exception. The processes are the
  environment of the program: a function from the number of runs made before, the
  working directory and the arguments to the outcome, so that two runs of the same
  command may end differently.
\<close>

datatype proc_outcome =
    Completed string
  | FileNotFoundError
  | CalledProcessError string string string
  | OtherFailure string

type_synonym processes = "nat \<Rightarrow> string \<Rightarrow> string list \<Rightarrow> proc_outcome"

definition run_git :: "processes \<Rightarrow> nat \<Rightarrow> string \<Rightarrow> string list \<Rightarrow> exn + string" where
  "run_git env n repo_root args =
     (case env n repo_root args of
        Completed out \<Rightarrow> Inr out
      | FileNotFoundError \<Rightarrow> Inl (GitError ''git not found on PATH'')
      | CalledProcessError err out text \<Rightarrow>
          Inl (GitError (''git '' @ join '' '' args @ '' failed: '' @
            (if strip err \<noteq> [] then strip err
             else if strip out \<noteq> [] then strip out else text)))
      | OtherFailure text \<Rightarrow> Inl (OtherException text))"

definition git_ls_files :: "processes \<Rightarrow> nat \<Rightarrow> string \<Rightarrow> exn + string list" where
  "git_ls_files env n repo_root =
     (case run_git env n repo_root [''ls-files'', ''-z''] of
        Inl e \<Rightarrow> Inl e
      | Inr out \<Rightarrow>
          if out = [] then Inr []
          else Inr (filter (\<lambda>p. p \<noteq> []) (split_char CHR 0x00 out)))"

section \<open>services_file.py\<close>

text \<open>An \<open>OwnerRef\<close> holds \<open>team\<close>, \<open>user\<close> and \<open>email\<close>, in this order.\<close>

datatype OwnerRef = OwnerRef "string option" "string option" "string option"

record Contact =
  slack :: "string option"
  email :: "string option"

record Service =
  name :: string
  description :: "string option"
  owners :: "OwnerRef list"
  contact :: Contact
  docs :: "string option"
  runbook :: "string option"
  oncall :: "string option"
  dashboards :: "string list"
  tags :: "string list"

section \<open>lint.py\<close>

text \<open>
  An \<open>Issue\<close>. Its field \<open>line\<close> is named \<open>lineno\<close> here, since \<open>line\<close> is the field
  of a \<open>Rule\<close>, and its field \<open>file\<close> is named \<open>filename\<close>, since \<open>file\<close> is a
  keyword of Isabelle.
\<close>

record Issue =
  severity :: string
  code :: string
  message :: string
  filename :: "string option"
  lineno :: "int option"
  hint :: "string option"

record LintResult =
  issues :: "Issue list"

definition has_errors :: "LintResult \<Rightarrow> bool" where
  "has_errors res = list_ex (\<lambda>i. severity i = ''ERROR'') (issues res)"

definition has_warnings :: "LintResult \<Rightarrow> bool" where
  "has_warnings res = list_ex (\<lambda>i. severity i = ''WARN'') (issues res)"

text \<open>The truth value of an optional string: \<open>None\<close> and the empty string are false.\<close>

definition truthy :: "string option \<Rightarrow> bool" where
  "truthy s = (case s of None \<Rightarrow> False | Some x \<Rightarrow> x \<noteq> [])"

text \<open>\<open>"WARN" if not strict else "ERROR"\<close>.\<close>

definition warn_unless_strict :: "bool \<Rightarrow> string" where
  "warn_unless_strict strict = (if \<not> strict then ''WARN'' else ''ERROR'')"

definition duplicate_pattern_issue :: "bool \<Rightarrow> Rule \<Rightarrow> Rule \<Rightarrow> Issue" where
  "duplicate_pattern_issue strict prev r =
     \<lparr>severity = warn_unless_strict strict,
      code = ''DUPLICATE_PATTERN'',
      message = ''Pattern '' @ in_apostrophes (pattern r)
        @ '' is defined multiple times (last-match wins). ''
        @ ''Previous: '' @ service prev @ '' (line '' @ str_int (line prev) @ ''), this: ''
        @ service r @ '' (line '' @ str_int (line r) @ '').'',
      filename = Some (source r),
      lineno = Some (line r),
      hint = Some ''Remove duplicates or make precedence explicit.''\<rparr>"

text \<open>
  The first loop of \<open>lint_rules\<close>: \<open>seen\<close> is the dictionary from a pattern to the rule
  recorded for it, \<open>found\<close> the issues so far.
\<close>

fun duplicate_loop :: "bool \<Rightarrow> Rule list \<Rightarrow> (string \<rightharpoonup> Rule) \<Rightarrow> Issue list \<Rightarrow> Issue list" where
  "duplicate_loop strict [] seen found = found"
| "duplicate_loop strict (r # rs) seen found =
     (case seen (pattern r) of
        Some prev \<Rightarrow>
          if service prev \<noteq> service r
          then duplicate_loop strict rs seen (found @ [duplicate_pattern_issue strict prev r])
          else duplicate_loop strict rs (seen(pattern r \<mapsto> r)) found
      | None \<Rightarrow> duplicate_loop strict rs (seen(pattern r \<mapsto> r)) found)"

definition unknown_service_issue :: "bool \<Rightarrow> Rule \<Rightarrow> Issue" where
  "unknown_service_issue strict r =
     \<lparr>severity = warn_unless_strict strict,
      code = ''UNKNOWN_SERVICE'',
      message = ''SERVICEOWNERS references unknown service '' @ in_apostrophes (service r) @ ''.'',
      filename = Some (source r),
      lineno = Some (line r),
      hint = Some ''Add it to services.yaml (or fix the spelling).''\<rparr>"

definition no_contact_issue :: "string \<Rightarrow> Issue" where
  "no_contact_issue nm =
     \<lparr>severity = ''WARN'',
      code = ''SERVICE_HAS_NO_CONTACT'',
      message = ''Service '' @ in_apostrophes nm @ '' has no owners and no contact (slack/email).'',
      filename = None,
      lineno = None,
      hint = Some ''Add owners/contact so PRs have someone to page.''\<rparr>"

text \<open>
  The block under \<open>if services:\<close>. The dictionary of services is the list of its
  items, in the order of insertion.
\<close>

definition services_issues :: "bool \<Rightarrow> Rule list \<Rightarrow> (string \<times> Service) list \<Rightarrow> Issue list" where
  "services_issues strict rs services =
     (if services = [] then []
      else
        map (unknown_service_issue strict)
          (filter (\<lambda>r. map_of services (service r) = None) rs)
        @ map (\<lambda>(nm, svc). no_contact_issue nm)
          (filter (\<lambda>(nm, svc). owners svc = []
              \<and> \<not> (truthy (slack (contact svc)) \<or> truthy (email (contact svc)))) services))"

definition git_required_issue :: "string \<Rightarrow> Issue" where
  "git_required_issue flag =
     \<lparr>severity = ''ERROR'',
      code = ''GIT_REQUIRED'',
      message = flag @ '' requires repo_root (git repo).'',
      filename = None, lineno = None, hint = None\<rparr>"

definition git_error_issue :: "string \<Rightarrow> Issue" where
  "git_error_issue msg =
     \<lparr>severity = ''ERROR'', code = ''GIT_ERROR'', message = msg,
      filename = None, lineno = None, hint = None\<rparr>"

definition matches_nothing_issue :: "bool \<Rightarrow> Rule \<Rightarrow> Issue" where
  "matches_nothing_issue strict r =
     \<lparr>severity = warn_unless_strict strict,
      code = ''PATTERN_MATCHES_NOTHING'',
      message = ''Pattern '' @ in_apostrophes (pattern r) @ '' matches no git-tracked files.'',
      filename = Some (source r),
      lineno = Some (line r),
      hint = Some ''Remove it or fix the glob (or ignore if files are generated later).''\<rparr>"

text \<open>
  \<open>tracked = git_ls_files(repo_root)\<close> inside \<open>try\<close>: a \<open>GitError\<close> becomes an issue
  and an empty listing; any other exception goes on to the caller.
\<close>

definition tracked_files ::
    "processes \<Rightarrow> nat \<Rightarrow> string \<Rightarrow> exn + (Issue list \<times> string list)" where
  "tracked_files env n repo_root =
     (case git_ls_files env n repo_root of
        Inr files \<Rightarrow> Inr ([], files)
      | Inl (GitError msg) \<Rightarrow> Inr ([git_error_issue msg], [])
      | Inl (OtherException text) \<Rightarrow> Inl (OtherException text))"

text \<open>
  The block under \<open>if check_matches:\<close>; the result is the issues it appends. It is
  the first to run git.
\<close>

definition check_matches_issues ::
    "processes \<Rightarrow> bool \<Rightarrow> Rule list \<Rightarrow> string option \<Rightarrow> exn + Issue list" where
  "check_matches_issues env strict rs repo_root =
     (case repo_root of
        None \<Rightarrow> Inr [git_required_issue ''--check-matches'']
      | Some root \<Rightarrow>
          (case tracked_files env 0 root of
             Inl e \<Rightarrow> Inl e
           | Inr (git_issues, tracked) \<Rightarrow>
               Inr (git_issues
                 @ map (matches_nothing_issue strict)
                     (filter (\<lambda>r. \<not> list_ex (CompiledPattern_matches (compiled r)) tracked) rs))))"

text \<open>
  The loop over the tracked files under \<open>if check_overlaps:\<close>; \<open>examples\<close> is the list
  \<open>overlap_examples\<close> so far, and the loop stops at 25 examples.
\<close>

fun overlap_loop :: "OwnershipIndex \<Rightarrow> string list \<Rightarrow> string list \<Rightarrow> string list" where
  "overlap_loop idx [] examples = examples"
| "overlap_loop idx (f # fs) examples =
     (let m = OwnershipIndex_match idx f;
          svcs = map service (matches m)
      in if length (matches m) > 1 \<and> length (remdups svcs) > 1
         then
           (let examples1 = examples @ [f @ '' -> '' @ join '', '' svcs]
            in if length examples1 \<ge> 25 then examples1 else overlap_loop idx fs examples1)
         else overlap_loop idx fs examples)"

definition overlapping_rules_issue :: "string list \<Rightarrow> Issue" where
  "overlapping_rules_issue examples =
     \<lparr>severity = ''WARN'',
      code = ''OVERLAPPING_RULES'',
      message = ''Some files match multiple services (last-match wins). Examples: ''
        @ join ''; '' examples,
      filename = None,
      lineno = None,
      hint = Some (''Often OK. If it'' @ [CHR 0x27] @ ''s confusing, tighten globs or add comments.'')\<rparr>"

text \<open>
  The block under \<open>if check_overlaps:\<close>; the result is the issues it appends. \<open>n\<close> is
  the number of runs of git before it.
\<close>

definition check_overlaps_issues ::
    "processes \<Rightarrow> nat \<Rightarrow> OwnershipIndex \<Rightarrow> string option \<Rightarrow> exn + Issue list" where
  "check_overlaps_issues env n idx repo_root =
     (case repo_root of
        None \<Rightarrow> Inr [git_required_issue ''--check-overlaps'']
      | Some root \<Rightarrow>
          (case tracked_files env n root of
             Inl e \<Rightarrow> Inl e
           | Inr (git_issues, tracked) \<Rightarrow>
               (let examples = overlap_loop idx tracked []
                in Inr (git_issues
                     @ (if examples \<noteq> [] then [overlapping_rules_issue examples] else [])))))"

text \<open>
  \<open>lint_rules\<close>. \<open>services\<close> is \<open>None\<close> or the dictionary of services; \<open>repo_root\<close> is
  \<open>None\<close> or the path of the repository. The block of \<open>check_matches\<close> has run git
  once when it was entered with a \<open>repo_root\<close>.
\<close>

definition lint_rules :: "processes \<Rightarrow> Rule list \<Rightarrow> (string \<times> Service) list option \<Rightarrow> bool
    \<Rightarrow> bool \<Rightarrow> bool \<Rightarrow> string option \<Rightarrow> exn + LintResult" where
  "lint_rules env rs services strict check_matches check_overlaps repo_root =
     (let services1 = (case services of None \<Rightarrow> [] | Some d \<Rightarrow> d);
          issues1 = duplicate_loop strict rs Map.empty [];
          issues2 = issues1 @ services_issues strict rs services1;
          idx = \<lparr>rules = rs\<rparr>;
          runs = (if check_matches \<and> repo_root \<noteq> None then 1 else 0)
      in case (if check_matches then check_matches_issues env strict rs repo_root else Inr []) of
           Inl e \<Rightarrow> Inl e
         | Inr issues3 \<Rightarrow>
             (case (if check_overlaps then check_overlaps_issues env runs idx repo_root else Inr []) of
                Inl e \<Rightarrow> Inl e
              | Inr issues4 \<Rightarrow> Inr \<lparr>issues = issues2 @ issues3 @ issues4\<rparr>))"

section \<open>Properties of the linter\<close>

text \<open>An environment without git: every run ends with \<open>FileNotFoundError\<close>.\<close>

definition no_git :: processes where
  "no_git n cwd args = FileNotFoundError"

subsection \<open>The first loop\<close>

text \<open>
  The service of the first rule with the pattern \<open>p\<close>. It is the service that the
  dictionary \<open>seen\<close> holds for \<open>p\<close> during the whole loop: the entry of \<open>p\<close> is
  written at the first rule with \<open>p\<close>, and after it only at a rule with the same
  service.
\<close>

definition first_service :: "Rule list \<Rightarrow> string \<Rightarrow> string option" where
  "first_service rs p = map_option service (find (\<lambda>x. pattern x = p) rs)"

text \<open>The same in the middle of the loop, when \<open>seen\<close> holds the rules recorded so far.\<close>

definition recorded_service :: "(string \<rightharpoonup> Rule) \<Rightarrow> Rule list \<Rightarrow> string \<Rightarrow> string option" where
  "recorded_service seen rs p =
     (case seen p of Some prev \<Rightarrow> Some (service prev) | None \<Rightarrow> first_service rs p)"

text \<open>
  A rule is flagged when its service is not the service of the first rule with its
  pattern.
\<close>

definition flagged :: "Rule list \<Rightarrow> Rule \<Rightarrow> bool" where
  "flagged rs r = (first_service rs (pattern r) \<noteq> Some (service r))"

definition is_duplicate_issue :: "Issue \<Rightarrow> bool" where
  "is_duplicate_issue i = (code i = ''DUPLICATE_PATTERN'')"

text \<open>The severity of an issue and the file and line it points to.\<close>

definition issue_place :: "Issue \<Rightarrow> string \<times> string option \<times> int option" where
  "issue_place i = (severity i, filename i, lineno i)"

text \<open>
  The rules of the test \<open>test_lint_duplicate_pattern_warns\<close>, and the same with a
  third service for the pattern.
\<close>

definition duplicate_example :: "Rule list" where
  "duplicate_example =
     (case parse_serviceowners_text (''src/** api'' @ [CHR 0x0A] @ ''src/** web'' @ [CHR 0x0A])
        ''SERVICEOWNERS'' of Inl e \<Rightarrow> [] | Inr rs \<Rightarrow> rs)"

definition three_services_example :: "Rule list" where
  "three_services_example =
     (case parse_serviceowners_text
        (''src/** api'' @ [CHR 0x0A] @ ''src/** web'' @ [CHR 0x0A] @ ''src/** db'' @ [CHR 0x0A])
        ''SERVICEOWNERS'' of Inl e \<Rightarrow> [] | Inr rs \<Rightarrow> rs)"

lemma duplicate_loop_step:
  "duplicate_loop strict (r # rs) seen found =
     (if \<exists>prev. seen (pattern r) = Some prev \<and> service prev \<noteq> service r
      then duplicate_loop strict rs seen
             (found @ [duplicate_pattern_issue strict (the (seen (pattern r))) r])
      else duplicate_loop strict rs (seen(pattern r \<mapsto> r)) found)"
  by (cases "seen (pattern r)") auto

declare duplicate_loop.simps(2) [simp del]

lemma duplicate_loop_append:
  "duplicate_loop strict rs seen found = found @ duplicate_loop strict rs seen []"
proof (induction rs arbitrary: seen found)
  case Nil
  then show ?case by simp
next
  case (Cons r rs)
  show ?case
  proof (cases "\<exists>prev. seen (pattern r) = Some prev \<and> service prev \<noteq> service r")
    case True
    let ?i = "duplicate_pattern_issue strict (the (seen (pattern r))) r"
    have "duplicate_loop strict rs seen (found @ [?i]) = (found @ [?i]) @ duplicate_loop strict rs seen []"
      by (rule Cons.IH)
    moreover have "duplicate_loop strict rs seen ([] @ [?i]) = [?i] @ duplicate_loop strict rs seen []"
      using Cons.IH [of seen "[?i]"] by simp
    ultimately show ?thesis unfolding duplicate_loop_step using True by simp
  next
    case False
    have "duplicate_loop strict rs (seen(pattern r \<mapsto> r)) found
        = found @ duplicate_loop strict rs (seen(pattern r \<mapsto> r)) []"
      by (rule Cons.IH)
    then show ?thesis unfolding duplicate_loop_step using False by (simp only: if_False)
  qed
qed

text \<open>
  The issues of the loop, rule by rule: one at every rule whose service differs from
  the recorded one.
\<close>

lemma duplicate_loop_places:
  "map issue_place (duplicate_loop strict rs seen []) =
     map (\<lambda>r. (warn_unless_strict strict, Some (source r), Some (line r)))
       (filter (\<lambda>r. recorded_service seen rs (pattern r) \<noteq> Some (service r)) rs)"
proof (induction rs arbitrary: seen)
  case Nil
  then show ?case by simp
next
  case (Cons r rs)
  let ?place = "\<lambda>r. (warn_unless_strict strict, Some (source r), Some (line r))"
  show ?case
  proof (cases "\<exists>prev. seen (pattern r) = Some prev \<and> service prev \<noteq> service r")
    case True
    then obtain prev where prev: "seen (pattern r) = Some prev" "service prev \<noteq> service r" by blast
    have keep: "recorded_service seen (r # rs) = recorded_service seen rs"
      using prev(1) by (auto simp: recorded_service_def first_service_def fun_eq_iff split: option.splits)
    have flag: "recorded_service seen rs (pattern r) \<noteq> Some (service r)"
      using prev by (simp add: recorded_service_def)
    have "duplicate_loop strict (r # rs) seen []
        = duplicate_pattern_issue strict prev r # duplicate_loop strict rs seen []"
      unfolding duplicate_loop_step [of strict r rs seen "[]"]
      using True prev duplicate_loop_append [of strict rs seen "[duplicate_pattern_issue strict prev r]"]
      by simp
    moreover have "issue_place (duplicate_pattern_issue strict prev r) = ?place r"
      by (simp add: issue_place_def duplicate_pattern_issue_def)
    moreover note Cons.IH [of seen]
    ultimately show ?thesis unfolding keep using flag by simp
  next
    case False
    then have c: "seen (pattern r) = None
        \<or> (\<exists>prev. seen (pattern r) = Some prev \<and> service prev = service r)"
      by (cases "seen (pattern r)") auto
    have step: "recorded_service seen (r # rs) = recorded_service (seen(pattern r \<mapsto> r)) rs"
      using c by (auto simp: recorded_service_def first_service_def fun_eq_iff split: option.splits)
    have flag: "recorded_service (seen(pattern r \<mapsto> r)) rs (pattern r) = Some (service r)"
      by (simp add: recorded_service_def)
    have "duplicate_loop strict (r # rs) seen [] = duplicate_loop strict rs (seen(pattern r \<mapsto> r)) []"
      unfolding duplicate_loop_step [of strict r rs seen "[]"] using False by (simp only: if_False)
    moreover note Cons.IH [of "seen(pattern r \<mapsto> r)"]
    ultimately show ?thesis unfolding step using flag by (simp del: fun_upd_apply)
  qed
qed

text \<open>
  Every issue of the loop names two rules of the rule set with one pattern and two
  services, the one recorded before and the one at hand.
\<close>

lemma duplicate_loop_pairs:
  assumes "\<forall>p prev. seen p = Some prev \<longrightarrow> prev \<in> set before \<and> pattern prev = p"
    and "i \<in> set (duplicate_loop strict rs seen [])"
  shows "\<exists>prev r as bs cs. before @ rs = as @ prev # bs @ r # cs
           \<and> i = duplicate_pattern_issue strict prev r
           \<and> pattern prev = pattern r \<and> service prev \<noteq> service r"
  using assms
proof (induction rs arbitrary: seen before)
  case Nil
  then show ?case by simp
next
  case (Cons r rs)
  have upd: "\<forall>p prev. (seen(pattern r \<mapsto> r)) p = Some prev \<longrightarrow> prev \<in> set (before @ [r]) \<and> pattern prev = p"
    using Cons.prems(1) by auto
  have keep: "\<forall>p prev. seen p = Some prev \<longrightarrow> prev \<in> set (before @ [r]) \<and> pattern prev = p"
    using Cons.prems(1) by auto
  have app: "(before @ [r]) @ rs = before @ r # rs" by simp
  show ?case
  proof (cases "\<exists>prev. seen (pattern r) = Some prev \<and> service prev \<noteq> service r")
    case False
    then have "duplicate_loop strict (r # rs) seen [] = duplicate_loop strict rs (seen(pattern r \<mapsto> r)) []"
      unfolding duplicate_loop_step [of strict r rs seen "[]"] by (simp only: if_False)
    with Cons.prems(2) have "i \<in> set (duplicate_loop strict rs (seen(pattern r \<mapsto> r)) [])"
      by (simp only:)
    from Cons.IH [OF upd this] show ?thesis unfolding app .
  next
    case True
    then obtain prev where prev: "seen (pattern r) = Some prev" "service prev \<noteq> service r" by blast
    have "duplicate_loop strict (r # rs) seen []
        = duplicate_pattern_issue strict prev r # duplicate_loop strict rs seen []"
      unfolding duplicate_loop_step [of strict r rs seen "[]"]
      using True prev duplicate_loop_append [of strict rs seen "[duplicate_pattern_issue strict prev r]"]
      by simp
    with Cons.prems(2)
    consider "i = duplicate_pattern_issue strict prev r" | "i \<in> set (duplicate_loop strict rs seen [])"
      by auto
    then show ?thesis
    proof cases
      case 1
      from prev Cons.prems(1) have "prev \<in> set before" "pattern prev = pattern r" by auto
      then obtain as bs where "before = as @ prev # bs" by (auto simp: in_set_conv_decomp)
      then have "before @ r # rs = as @ prev # bs @ r # rs" by simp
      with 1 prev(2) \<open>pattern prev = pattern r\<close> show ?thesis by blast
    next
      case 2
      from Cons.IH [OF keep 2] show ?thesis unfolding app .
    qed
  qed
qed

lemma duplicate_loop_codes: "i \<in> set (duplicate_loop strict rs Map.empty []) \<Longrightarrow> is_duplicate_issue i"
  using duplicate_loop_pairs [of Map.empty "[]" i strict rs]
  by (auto simp: is_duplicate_issue_def duplicate_pattern_issue_def)

text \<open>No other block of \<open>lint_rules\<close> gives an issue with the code \<open>DUPLICATE_PATTERN\<close>.\<close>

lemma other_issues_not_duplicate:
  "\<not> is_duplicate_issue (unknown_service_issue strict r)"
  "\<not> is_duplicate_issue (no_contact_issue nm)"
  "\<not> is_duplicate_issue (git_required_issue flag)"
  "\<not> is_duplicate_issue (git_error_issue msg)"
  "\<not> is_duplicate_issue (matches_nothing_issue strict r)"
  "\<not> is_duplicate_issue (overlapping_rules_issue examples)"
  by (simp_all add: is_duplicate_issue_def unknown_service_issue_def no_contact_issue_def
      git_required_issue_def git_error_issue_def matches_nothing_issue_def
      overlapping_rules_issue_def)

lemma services_issues_no_duplicate:
  "filter is_duplicate_issue (services_issues strict rs sv) = []"
  unfolding filter_empty_conv
  by (auto simp: services_issues_def other_issues_not_duplicate)

lemma tracked_files_no_duplicate:
  "tracked_files env n root = Inr (gi, tracked) \<Longrightarrow> filter is_duplicate_issue gi = []"
  by (auto simp: tracked_files_def other_issues_not_duplicate split: sum.splits exn.splits)

lemma check_matches_no_duplicate:
  assumes "check_matches_issues env strict rs root = Inr found"
  shows "filter is_duplicate_issue found = []"
proof (cases root)
  case None
  with assms have "found = [git_required_issue ''--check-matches'']"
    by (auto simp: check_matches_issues_def)
  then show ?thesis by (simp add: other_issues_not_duplicate)
next
  case (Some r)
  with assms obtain gi tracked where t: "tracked_files env 0 r = Inr (gi, tracked)"
    and f: "found = gi @ map (matches_nothing_issue strict)
        (filter (\<lambda>r. \<not> list_ex (CompiledPattern_matches (compiled r)) tracked) rs)"
    by (auto simp: check_matches_issues_def split: sum.splits)
  show ?thesis unfolding f filter_append tracked_files_no_duplicate [OF t]
    by (simp add: filter_empty_conv other_issues_not_duplicate)
qed

lemma check_overlaps_no_duplicate:
  assumes "check_overlaps_issues env n idx root = Inr found"
  shows "filter is_duplicate_issue found = []"
proof (cases root)
  case None
  with assms have "found = [git_required_issue ''--check-overlaps'']"
    by (auto simp: check_overlaps_issues_def)
  then show ?thesis by (simp add: other_issues_not_duplicate)
next
  case (Some r)
  with assms obtain gi tracked where t: "tracked_files env n r = Inr (gi, tracked)"
    and f: "found = gi @ (if overlap_loop idx tracked [] \<noteq> []
        then [overlapping_rules_issue (overlap_loop idx tracked [])] else [])"
    by (auto simp: check_overlaps_issues_def Let_def split: sum.splits)
  show ?thesis unfolding f filter_append tracked_files_no_duplicate [OF t]
    by (simp add: other_issues_not_duplicate)
qed

text \<open>The issues of a result, block by block.\<close>

lemma lint_rules_result:
  "lint_rules env rs services strict cm co root = Inr res \<longleftrightarrow>
     (\<exists>found3 found4.
        (if cm then check_matches_issues env strict rs root else Inr []) = Inr found3
      \<and> (if co then check_overlaps_issues env (if cm \<and> root \<noteq> None then 1 else 0)
              \<lparr>rules = rs\<rparr> root else Inr []) = Inr found4
      \<and> res = \<lparr>issues = (duplicate_loop strict rs Map.empty []
            @ services_issues strict rs (case services of None \<Rightarrow> [] | Some d \<Rightarrow> d))
            @ found3 @ found4\<rparr>)"
  unfolding lint_rules_def Let_def
  by (cases "if cm then check_matches_issues env strict rs root else Inr []";
      cases "if co then check_overlaps_issues env (if cm \<and> root \<noteq> None then 1 else 0)
              \<lparr>rules = rs\<rparr> root else Inr []")
     (auto simp del: duplicate_loop.simps)

lemma lint_rules_duplicates:
  assumes "lint_rules env rs services strict cm co root = Inr res"
  shows "filter is_duplicate_issue (issues res) = duplicate_loop strict rs Map.empty []"
proof -
  from assms obtain found3 found4 where
    3: "(if cm then check_matches_issues env strict rs root else Inr []) = Inr found3" and
    4: "(if co then check_overlaps_issues env (if cm \<and> root \<noteq> None then 1 else 0)
              \<lparr>rules = rs\<rparr> root else Inr []) = Inr found4" and
    r: "issues res = (duplicate_loop strict rs Map.empty []
            @ services_issues strict rs (case services of None \<Rightarrow> [] | Some d \<Rightarrow> d))
            @ found3 @ found4"
    unfolding lint_rules_result by auto
  have d: "filter is_duplicate_issue (duplicate_loop strict rs Map.empty [])
      = duplicate_loop strict rs Map.empty []"
    using duplicate_loop_codes by (simp add: filter_id_conv)
  have m: "filter is_duplicate_issue found3 = []"
  proof (cases cm)
    case True
    with 3 show ?thesis by (simp add: check_matches_no_duplicate)
  next
    case False
    with 3 show ?thesis by auto
  qed
  have ov: "filter is_duplicate_issue found4 = []"
  proof (cases co)
    case True
    with 4 show ?thesis by (simp only: if_True check_overlaps_no_duplicate)
  next
    case False
    with 4 show ?thesis by auto
  qed
  show ?thesis unfolding r filter_append d services_issues_no_duplicate m ov by simp
qed

lemma recorded_service_empty: "recorded_service Map.empty rs = first_service rs"
  by (simp add: recorded_service_def fun_eq_iff)

lemma first_service_in:
  assumes "r \<in> set rs"
  shows "\<exists>x \<in> set rs. pattern x = pattern r \<and> first_service rs (pattern r) = Some (service x)"
proof -
  from assms have "find (\<lambda>x. pattern x = pattern r) rs \<noteq> None"
    by (auto simp: find_None_iff)
  then obtain x where x: "find (\<lambda>x. pattern x = pattern r) rs = Some x" by blast
  then have "x \<in> set rs" "pattern x = pattern r"
    by (auto simp: find_Some_iff)
  with x show ?thesis by (auto simp: first_service_def)
qed

lemma same_service_not_flagged:
  assumes "r \<in> set rs" and "\<forall>x \<in> set rs. pattern x = pattern r \<longrightarrow> service x = service r"
  shows "\<not> flagged rs r"
  using first_service_in [OF assms(1)] assms(2) by (auto simp: flagged_def)

lemma different_service_flagged:
  assumes "r \<in> set rs" "x \<in> set rs" "pattern x = pattern r" "service x \<noteq> service r"
  shows "\<exists>y \<in> set rs. pattern y = pattern r \<and> flagged rs y"
proof (cases "flagged rs r")
  case True
  with assms(1) show ?thesis by blast
next
  case False
  then have "first_service rs (pattern x) \<noteq> Some (service x)"
    using assms(3,4) by (simp add: flagged_def)
  with assms(2,3) show ?thesis unfolding flagged_def by blast
qed

text \<open>
  As the claim is worded it fails when a pattern has more than two services: the
  rules \<open>src/** api\<close>, \<open>src/** web\<close> and \<open>src/** db\<close> hold one distinct pattern, and
  \<open>lint_rules\<close> gives two issues \<open>DUPLICATE_PATTERN\<close>, one at line 2 and one at line 3.
\<close>

theorem duplicate_issues_per_rule_counterexample:
  "map (\<lambda>r. (pattern r, service r, line r)) three_services_example
     = [(''src/**'', ''api'', 1), (''src/**'', ''web'', 2), (''src/**'', ''db'', 3)]
   \<and> remdups (map pattern three_services_example) = [''src/**'']
   \<and> map_sum id (\<lambda>res. map (\<lambda>i. (code i, severity i, lineno i)) (issues res))
       (lint_rules no_git three_services_example None False False False None)
     = Inr [(''DUPLICATE_PATTERN'', ''WARN'', Some 2), (''DUPLICATE_PATTERN'', ''WARN'', Some 3)]"
  by code_simp

text \<open>
  Claim C4, as amended. Duplicate-pattern lint check: \<open>lint_rules\<close> emits one
  \<open>DUPLICATE_PATTERN\<close> issue for each rule whose service differs from the service of
  the first rule with the same raw pattern, in the order of the rules; the issue
  points to that rule, has the severity \<open>WARN\<close>, or \<open>ERROR\<close> when \<open>strict\<close> is set, and
  its message names an earlier rule with the same pattern and another service
  together with the rule at hand. A rule is never flagged when all the rules with its
  pattern have its service, and a pattern that has two rules with different services
  has a flagged rule. In particular the rules \<open>src/** api\<close> and \<open>src/** web\<close> produce
  exactly one \<open>DUPLICATE_PATTERN\<close> issue.
\<close>

theorem duplicate_issues_per_rule:
  assumes "lint_rules env rs services strict cm co root = Inr res"
  shows "map issue_place (filter is_duplicate_issue (issues res))
       = map (\<lambda>r. (warn_unless_strict strict, Some (source r), Some (line r)))
           (filter (flagged rs) rs)
    \<and> (\<forall>i \<in> set (filter is_duplicate_issue (issues res)).
          \<exists>prev r as bs cs. rs = as @ prev # bs @ r # cs
            \<and> i = duplicate_pattern_issue strict prev r
            \<and> pattern prev = pattern r \<and> service prev \<noteq> service r)
    \<and> (\<forall>r \<in> set rs. (\<forall>x \<in> set rs. pattern x = pattern r \<longrightarrow> service x = service r)
          \<longrightarrow> \<not> flagged rs r)
    \<and> (\<forall>r \<in> set rs. \<forall>x \<in> set rs. pattern x = pattern r \<and> service x \<noteq> service r
          \<longrightarrow> (\<exists>y \<in> set rs. pattern y = pattern r \<and> flagged rs y))"
proof -
  note d = lint_rules_duplicates [OF assms]
  have 1: "map issue_place (filter is_duplicate_issue (issues res))
       = map (\<lambda>r. (warn_unless_strict strict, Some (source r), Some (line r)))
           (filter (flagged rs) rs)"
    unfolding d duplicate_loop_places recorded_service_empty flagged_def ..
  have 2: "\<forall>i \<in> set (filter is_duplicate_issue (issues res)).
          \<exists>prev r as bs cs. rs = as @ prev # bs @ r # cs
            \<and> i = duplicate_pattern_issue strict prev r
            \<and> pattern prev = pattern r \<and> service prev \<noteq> service r"
    unfolding d using duplicate_loop_pairs [of Map.empty "[]" _ strict rs] by simp
  have 3: "\<forall>r \<in> set rs. (\<forall>x \<in> set rs. pattern x = pattern r \<longrightarrow> service x = service r)
          \<longrightarrow> \<not> flagged rs r"
    using same_service_not_flagged by blast
  have 4: "\<forall>r \<in> set rs. \<forall>x \<in> set rs. pattern x = pattern r \<and> service x \<noteq> service r
          \<longrightarrow> (\<exists>y \<in> set rs. pattern y = pattern r \<and> flagged rs y)"
    using different_service_flagged by blast
  from 1 2 3 4 show ?thesis by (intro conjI)
qed

text \<open>The two rules of the claim: one issue, at the second rule.\<close>

lemma duplicate_example_rules:
  "map (\<lambda>r. (pattern r, service r, line r, source r)) duplicate_example
     = [(''src/**'', ''api'', 1, ''SERVICEOWNERS''), (''src/**'', ''web'', 2, ''SERVICEOWNERS'')]
   \<and> map (flagged duplicate_example) duplicate_example = [False, True]"
  by code_simp

lemma duplicate_example_lint:
  "map_sum id (\<lambda>res. map (\<lambda>i. (code i, severity i, filename i, lineno i, message i)) (issues res))
       (lint_rules no_git duplicate_example None False False False None)
     = Inr [(''DUPLICATE_PATTERN'', ''WARN'', Some ''SERVICEOWNERS'', Some 2,
        ''Pattern '' @ [CHR 0x27] @ ''src/**'' @ [CHR 0x27] @ '' is defined multiple times (last-match wins). Previous: api (line 1), this: web (line 2).'')]"
  by code_simp

theorem duplicate_issues_per_rule_witness:
  "lint_rules no_git duplicate_example None False False False None
     = Inr \<lparr>issues = duplicate_loop False duplicate_example Map.empty []\<rparr>
   \<and> map issue_place (filter is_duplicate_issue (duplicate_loop False duplicate_example Map.empty []))
     = [(''WARN'', Some ''SERVICEOWNERS'', Some 2)]"
proof -
  have e: "lint_rules no_git duplicate_example None False False False None
     = Inr \<lparr>issues = duplicate_loop False duplicate_example Map.empty []\<rparr>"
    by (simp add: lint_rules_def services_issues_def)
  have f: "map (\<lambda>r. (warn_unless_strict False, Some (source r), Some (line r)))
             (filter (flagged duplicate_example) duplicate_example)
     = [(''WARN'', Some ''SERVICEOWNERS'', Some 2)]"
    by code_simp
  from duplicate_issues_per_rule [OF e] have
    "map issue_place (filter is_duplicate_issue
        (issues \<lparr>issues = duplicate_loop False duplicate_example Map.empty []\<rparr>))
     = map (\<lambda>r. (warn_unless_strict False, Some (source r), Some (line r)))
             (filter (flagged duplicate_example) duplicate_example)"
    by (rule conjunct1)
  with e f show ?thesis by simp
qed

subsection \<open>Exceptions\<close>

text \<open>An outcome of git that \<open>_run_git\<close> does not turn into a \<open>GitError\<close>.\<close>

definition other_failure :: "proc_outcome \<Rightarrow> bool" where
  "other_failure out = (case out of OtherFailure text \<Rightarrow> True | _ \<Rightarrow> False)"

text \<open>An environment where every run of git ends with an exception of that kind.\<close>

definition broken_git :: processes where
  "broken_git n cwd args = OtherFailure ''Permission denied''"

lemma tracked_files_raises:
  "tracked_files env n r = Inl e \<longleftrightarrow>
     (\<exists>t. e = OtherException t \<and> env n r [''ls-files'', ''-z''] = OtherFailure t)"
  by (auto simp: tracked_files_def git_ls_files_def run_git_def
      split: proc_outcome.splits sum.splits exn.splits if_splits)

lemma check_matches_raises:
  "check_matches_issues env strict rs root = Inl e \<longleftrightarrow>
     (\<exists>r t. root = Some r \<and> e = OtherException t
        \<and> env 0 r [''ls-files'', ''-z''] = OtherFailure t)"
proof (cases root)
  case None
  then show ?thesis by (simp add: check_matches_issues_def)
next
  case (Some r)
  have "check_matches_issues env strict rs (Some r) = Inl e \<longleftrightarrow> tracked_files env 0 r = Inl e"
    by (cases "tracked_files env 0 r") (auto simp: check_matches_issues_def)
  then show ?thesis unfolding Some tracked_files_raises by simp
qed

lemma check_overlaps_raises:
  "check_overlaps_issues env n idx root = Inl e \<longleftrightarrow>
     (\<exists>r t. root = Some r \<and> e = OtherException t
        \<and> env n r [''ls-files'', ''-z''] = OtherFailure t)"
proof (cases root)
  case None
  then show ?thesis by (simp add: check_overlaps_issues_def)
next
  case (Some r)
  have "check_overlaps_issues env n idx (Some r) = Inl e \<longleftrightarrow> tracked_files env n r = Inl e"
    by (cases "tracked_files env n r") (auto simp: check_overlaps_issues_def Let_def)
  then show ?thesis unfolding Some tracked_files_raises by simp
qed

lemma lint_rules_raises:
  "lint_rules env rs services strict cm co root = Inl e \<longleftrightarrow>
     (cm \<and> check_matches_issues env strict rs root = Inl e)
     \<or> (\<not> (cm \<and> isl (check_matches_issues env strict rs root)) \<and> co
        \<and> check_overlaps_issues env (if cm \<and> root \<noteq> None then 1 else 0) \<lparr>rules = rs\<rparr> root = Inl e)"
  unfolding lint_rules_def Let_def
  by (cases "check_matches_issues env strict rs root";
      cases "check_overlaps_issues env (if cm \<and> root \<noteq> None then 1 else 0) \<lparr>rules = rs\<rparr> root";
      cases cm; cases co)
     (simp_all del: duplicate_loop.simps)

lemma isl_check_matches:
  "isl (check_matches_issues env strict rs root) \<longleftrightarrow>
     (\<exists>r. root = Some r \<and> other_failure (env 0 r [''ls-files'', ''-z'']))"
proof (cases root)
  case None
  then show ?thesis by (simp add: check_matches_issues_def)
next
  case (Some r)
  show ?thesis unfolding Some
    by (cases "env 0 r [''ls-files'', ''-z'']")
       (simp_all add: check_matches_issues_def tracked_files_def git_ls_files_def run_git_def
          other_failure_def)
qed

lemma lint_rules_without_root:
  "lint_rules env rs services strict cm co None =
     Inr \<lparr>issues = duplicate_loop strict rs Map.empty []
        @ services_issues strict rs (case services of None \<Rightarrow> [] | Some d \<Rightarrow> d)
        @ (if cm then [git_required_issue ''--check-matches''] else [])
        @ (if co then [git_required_issue ''--check-overlaps''] else [])\<rparr>"
  by (simp add: lint_rules_def check_matches_issues_def check_overlaps_issues_def
      del: duplicate_loop.simps)

text \<open>
  As the claim is worded it fails: when \<open>check_matches\<close> or \<open>check_overlaps\<close> is
  requested without a \<open>repo_root\<close>, \<open>lint_rules\<close> raises nothing. It returns a result
  with an issue \<open>GIT_REQUIRED\<close> of the severity \<open>ERROR\<close>.
\<close>

theorem lint_rules_failures_counterexample:
  "lint_rules no_git [] None False True False None
     = Inr \<lparr>issues = [git_required_issue ''--check-matches'']\<rparr>
   \<and> lint_rules no_git [] None False False True None
     = Inr \<lparr>issues = [git_required_issue ''--check-overlaps'']\<rparr>
   \<and> severity (git_required_issue ''--check-matches'') = ''ERROR''
   \<and> code (git_required_issue ''--check-matches'') = ''GIT_REQUIRED''"
  by code_simp

text \<open>
  Claim C6, as amended. Linter failure semantics: \<open>lint_rules\<close> never raises for a
  data-quality problem (duplicates, unknown services, missing contacts, dead
  patterns, overlaps), nor for a \<open>GitError\<close> of the file listing: these become issues
  of the returned result. When an opt-in check is requested without a \<open>repo_root\<close> it
  does not raise either: the result ends with one issue \<open>GIT_REQUIRED\<close> for each
  requested check. \<open>lint_rules\<close> raises exactly when a \<open>repo_root\<close> is given, an opt-in
  check is requested and the run of \<open>git ls-files -z\<close> for that check ends with an
  exception other than \<open>FileNotFoundError\<close> and \<open>CalledProcessError\<close>; that exception
  is the one raised.
\<close>

theorem lint_rules_failures:
  "(lint_rules env rs services strict cm co root = Inl e \<longleftrightarrow>
      (\<exists>r t. root = Some r \<and> e = OtherException t
        \<and> (cm \<and> env 0 r [''ls-files'', ''-z''] = OtherFailure t
           \<or> co \<and> \<not> (cm \<and> other_failure (env 0 r [''ls-files'', ''-z'']))
             \<and> env (if cm then 1 else 0) r [''ls-files'', ''-z''] = OtherFailure t)))
   \<and> (root = None \<longrightarrow>
        lint_rules env rs services strict cm co root =
          Inr \<lparr>issues = duplicate_loop strict rs Map.empty []
            @ services_issues strict rs (case services of None \<Rightarrow> [] | Some d \<Rightarrow> d)
            @ (if cm then [git_required_issue ''--check-matches''] else [])
            @ (if co then [git_required_issue ''--check-overlaps''] else [])\<rparr>)"
proof -
  have "lint_rules env rs services strict cm co root = Inl e \<longleftrightarrow>
      (\<exists>r t. root = Some r \<and> e = OtherException t
        \<and> (cm \<and> env 0 r [''ls-files'', ''-z''] = OtherFailure t
           \<or> co \<and> \<not> (cm \<and> other_failure (env 0 r [''ls-files'', ''-z'']))
             \<and> env (if cm then 1 else 0) r [''ls-files'', ''-z''] = OtherFailure t))"
  proof (cases root)
    case None
    then show ?thesis by (simp add: lint_rules_without_root del: duplicate_loop.simps)
  next
    case (Some r)
    show ?thesis
      unfolding lint_rules_raises isl_check_matches check_matches_raises check_overlaps_raises Some
      by auto
  qed
  moreover have "root = None \<longrightarrow>
        lint_rules env rs services strict cm co root =
          Inr \<lparr>issues = duplicate_loop strict rs Map.empty []
            @ services_issues strict rs (case services of None \<Rightarrow> [] | Some d \<Rightarrow> d)
            @ (if cm then [git_required_issue ''--check-matches''] else [])
            @ (if co then [git_required_issue ''--check-overlaps''] else [])\<rparr>"
    using lint_rules_without_root by blast
  ultimately show ?thesis by (rule conjI)
qed

theorem lint_rules_failures_witness:
  "lint_rules broken_git [] None False True True None
     = Inr \<lparr>issues = [git_required_issue ''--check-matches'',
                       git_required_issue ''--check-overlaps'']\<rparr>
   \<and> lint_rules broken_git [] None False False True (Some ''repo'')
     = Inl (OtherException ''Permission denied'')"
  using lint_rules_failures [of broken_git "[]" None False True True None "GitError []"]
    lint_rules_failures [of broken_git "[]" None False False True "Some ''repo''"
      "OtherException ''Permission denied''"]
  by (simp add: broken_git_def services_issues_def)


section \<open>ownership.py, with the lists in a store\<close>

text \<open>
  A Python list is an object that can be changed in place, and two names may refer to
  the same list. Here the lists of rules live in a store; a reference is the
  position of a list in the store. A \<open>Rule\<close> is a frozen dataclass, so the rules
  themselves are values.
\<close>

type_synonym ref = nat

type_synonym store = "Rule list list"

text \<open>The items of the list behind a reference. Every reference of a program is in the store.\<close>

definition items :: "store \<Rightarrow> ref \<Rightarrow> Rule list" where
  "items st a = (if a < length st then st ! a else [])"

text \<open>\<open>list(xs)\<close>: a new list object with the given items.\<close>

definition new_list :: "Rule list \<Rightarrow> store \<Rightarrow> ref \<times> store" where
  "new_list xs st = (length st, st @ [xs])"

text \<open>
  A change of a list in place (\<open>append\<close>, \<open>insert\<close>, \<open>remove\<close>, \<open>clear\<close>, \<open>sort\<close>, an
  assignment to an item or a slice, ...): the list behind the reference has other
  items afterwards, and no other list is touched.
\<close>

definition mutate :: "ref \<Rightarrow> Rule list \<Rightarrow> store \<Rightarrow> store" where
  "mutate a xs st = st[a := xs]"

text \<open>An \<open>OwnershipIndex\<close> object: its attribute \<open>_rules\<close> refers to a list.\<close>

record OwnershipIndex_object =
  rules_ref :: ref

text \<open>\<open>__init__\<close>: \<open>self._rules = list(rules)\<close>, for the argument behind the reference \<open>a\<close>.\<close>

definition OwnershipIndex_init :: "ref \<Rightarrow> store \<Rightarrow> OwnershipIndex_object \<times> store" where
  "OwnershipIndex_init a st =
     (let (b, st1) = new_list (items st a) st in (\<lparr>rules_ref = b\<rparr>, st1))"

text \<open>The property \<open>rules\<close>: \<open>return list(self._rules)\<close>.\<close>

definition OwnershipIndex_rules :: "OwnershipIndex_object \<Rightarrow> store \<Rightarrow> ref \<times> store" where
  "OwnershipIndex_rules self st = new_list (items st (rules_ref self)) st"

text \<open>
  \<open>match\<close> reads the list behind \<open>self._rules\<close>. The list \<open>matches\<close> of its result is a
  new list, given here by its items.
\<close>

definition OwnershipIndex_match_in :: "OwnershipIndex_object \<Rightarrow> store \<Rightarrow> string \<Rightarrow> Match" where
  "OwnershipIndex_match_in self st pth =
     OwnershipIndex_match \<lparr>rules = items st (rules_ref self)\<rparr> pth"


section \<open>Properties of the index in the store\<close>

text \<open>
  What the code around an index does with the lists it holds: it changes the list it
  passed to the constructor, it reads the property \<open>rules\<close>, and it changes a list
  that \<open>rules\<close> returned, the \<open>k\<close>-th one.
\<close>

datatype target = Argument | Returned nat

datatype action = Mutate target "Rule list" | CallRules

fun act :: "OwnershipIndex_object \<Rightarrow> ref \<Rightarrow> store \<times> ref list \<Rightarrow> action \<Rightarrow> store \<times> ref list" where
  "act self a (st, returned) (Mutate Argument xs) = (mutate a xs st, returned)"
| "act self a (st, returned) (Mutate (Returned k) xs) =
     (if k < length returned then (mutate (returned ! k) xs st, returned) else (st, returned))"
| "act self a (st, returned) CallRules =
     (let (b, st1) = OwnershipIndex_rules self st in (st1, returned @ [b]))"

text \<open>The store and the lists returned by \<open>rules\<close> after a sequence of such steps.\<close>

definition client :: "OwnershipIndex_object \<Rightarrow> ref \<Rightarrow> store \<Rightarrow> action list \<Rightarrow> store \<times> ref list" where
  "client self a st acts = foldl (act self a) (st, []) acts"

text \<open>
  The invariant: the list of the index is newer than the argument and older than
  every list returned by \<open>rules\<close>, it holds the items \<open>xs\<close>, and the returned lists are
  different objects.
\<close>

definition insulated :: "OwnershipIndex_object \<Rightarrow> ref \<Rightarrow> Rule list \<Rightarrow> store \<times> ref list \<Rightarrow> bool" where
  "insulated self a xs s =
     (case s of (st, returned) \<Rightarrow>
        a < rules_ref self \<and> rules_ref self < length st \<and> st ! rules_ref self = xs
        \<and> (\<forall>r \<in> set returned. rules_ref self < r \<and> r < length st)
        \<and> distinct returned)"

text \<open>The rules of \<open>last_match_example\<close>, and a client that empties and reverses lists.\<close>

definition insulation_example :: "Rule list" where
  "insulation_example =
     (case parse_serviceowners_text last_match_example ''SERVICEOWNERS'' of
        Inl e \<Rightarrow> [] | Inr rs \<Rightarrow> rs)"

definition insulation_actions :: "action list" where
  "insulation_actions =
     [CallRules, Mutate Argument [], Mutate (Returned 0) (rev insulation_example), CallRules,
      Mutate (Returned 1) []]"

lemma act_insulated:
  assumes "insulated self a xs s"
  shows "insulated self a xs (act self a s x)"
proof (cases s)
  case (Pair st returned)
  with assms have i: "a < rules_ref self" "rules_ref self < length st" "st ! rules_ref self = xs"
    "\<forall>r \<in> set returned. rules_ref self < r \<and> r < length st" "distinct returned"
    by (simp_all add: insulated_def)
  show ?thesis
  proof (cases x)
    case CallRules
    with i show ?thesis unfolding Pair
      by (auto simp: insulated_def OwnershipIndex_rules_def new_list_def nth_append)
  next
    case (Mutate t ys)
    show ?thesis
    proof (cases t)
      case Argument
      with i show ?thesis unfolding Pair Mutate
        by (simp add: insulated_def mutate_def)
    next
      case (Returned k)
      show ?thesis
      proof (cases "k < length returned")
        case True
        then have "returned ! k \<in> set returned" by simp
        with i(4) have "rules_ref self < returned ! k" by blast
        then have "st[returned ! k := ys] ! rules_ref self = st ! rules_ref self"
          by (intro nth_list_update_neq) simp
        with i True show ?thesis unfolding Pair Mutate Returned
          by (simp add: insulated_def mutate_def)
      next
        case False
        with i show ?thesis unfolding Pair Mutate Returned
          by (simp add: insulated_def)
      qed
    qed
  qed
qed

lemma foldl_act_insulated:
  "insulated self a xs s \<Longrightarrow> insulated self a xs (foldl (act self a) s acts)"
  by (induction acts arbitrary: s) (simp_all add: act_insulated)

lemma init_insulated:
  assumes "a < length st" and "OwnershipIndex_init a st = (self, st1)"
  shows "insulated self a (st ! a) (st1, [])"
  using assms
  by (auto simp: OwnershipIndex_init_def new_list_def insulated_def items_def)

lemma insulation_example_run:
  "(case OwnershipIndex_init 0 [insulation_example] of (self, st1) \<Rightarrow>
      case client self 0 st1 insulation_actions of (st2, returned) \<Rightarrow>
        (rules_ref self, returned, map (map service) st2,
         Match_service (OwnershipIndex_match_in self st2 ''src/main.py'')))
   = (1, [2, 3], [[], [''core'', ''platform''], [''platform'', ''core''], []], Some ''platform'')"
  by code_simp

text \<open>
  Claim C10. \<open>OwnershipIndex\<close> is insulated from external mutation: the constructor
  copies the list it is given and \<open>rules\<close> returns a new list at each call, so that
  after any sequence of changes to the list passed to the constructor and to the
  lists returned by \<open>rules\<close>, \<open>match\<close> gives what it gave right after the construction,
  the match against the rules the constructor was given. The list of the index is
  neither the argument nor a returned list, the returned lists are different lists,
  and \<open>rules\<close> still returns a new list with the rules the constructor was given.
\<close>

theorem index_insulated_from_mutation:
  assumes "a < length st"
    and "OwnershipIndex_init a st = (self, st1)"
    and "client self a st1 acts = (st2, returned)"
  shows "OwnershipIndex_match_in self st2 pth = OwnershipIndex_match \<lparr>rules = st ! a\<rparr> pth
    \<and> OwnershipIndex_match_in self st2 pth = OwnershipIndex_match_in self st1 pth
    \<and> rules_ref self \<notin> set (a # returned) \<and> distinct (a # returned)
    \<and> (case OwnershipIndex_rules self st2 of (b, st3) \<Rightarrow>
          b \<notin> set (rules_ref self # a # returned) \<and> items st3 b = st ! a)"
proof -
  from init_insulated [OF assms(1,2)] have "insulated self a (st ! a) (st1, [])" .
  then have "insulated self a (st ! a) (client self a st1 acts)"
    unfolding client_def by (rule foldl_act_insulated)
  then have 2: "a < rules_ref self" "rules_ref self < length st2"
    "st2 ! rules_ref self = st ! a"
    "\<forall>r \<in> set returned. rules_ref self < r \<and> r < length st2" "distinct returned"
    unfolding assms(3) by (simp_all add: insulated_def)
  from init_insulated [OF assms(1,2)]
  have 1: "rules_ref self < length st1" "st1 ! rules_ref self = st ! a"
    by (simp_all add: insulated_def)
  have m: "OwnershipIndex_match_in self st2 pth = OwnershipIndex_match \<lparr>rules = st ! a\<rparr> pth"
    using 2 by (simp add: OwnershipIndex_match_in_def items_def)
  have m1: "OwnershipIndex_match_in self st2 pth = OwnershipIndex_match_in self st1 pth"
    using 1 2 by (simp add: OwnershipIndex_match_in_def items_def)
  have n: "rules_ref self \<notin> set (a # returned)" using 2(1,4) by auto
  have d: "distinct (a # returned)" using 2(1,4,5) by auto
  have r: "case OwnershipIndex_rules self st2 of (b, st3) \<Rightarrow>
          b \<notin> set (rules_ref self # a # returned) \<and> items st3 b = st ! a"
    using 2 by (auto simp: OwnershipIndex_rules_def new_list_def items_def)
  from m m1 n d r show ?thesis by (intro conjI)
qed

theorem index_insulated_from_mutation_witness:
  "OwnershipIndex_init 0 [insulation_example]
     = (\<lparr>rules_ref = 1\<rparr>, [insulation_example, insulation_example])
   \<and> client \<lparr>rules_ref = 1\<rparr> 0 [insulation_example, insulation_example] insulation_actions
     = ([[], insulation_example, rev insulation_example, []], [2, 3])
   \<and> OwnershipIndex_match_in \<lparr>rules_ref = 1\<rparr>
       [[], insulation_example, rev insulation_example, []] ''src/main.py''
     = OwnershipIndex_match \<lparr>rules = insulation_example\<rparr> ''src/main.py''
   \<and> Match_service (OwnershipIndex_match \<lparr>rules = insulation_example\<rparr> ''src/main.py'')
     = Some ''platform''"
proof -
  have i: "OwnershipIndex_init 0 [insulation_example]
     = (\<lparr>rules_ref = 1\<rparr>, [insulation_example, insulation_example])"
    by (simp add: OwnershipIndex_init_def new_list_def items_def)
  have c: "client \<lparr>rules_ref = 1\<rparr> 0 [insulation_example, insulation_example] insulation_actions
     = ([[], insulation_example, rev insulation_example, []], [2, 3])"
    by (simp add: client_def insulation_actions_def OwnershipIndex_rules_def new_list_def
        items_def mutate_def)
  have s: "Match_service (OwnershipIndex_match \<lparr>rules = insulation_example\<rparr> ''src/main.py'')
     = Some ''platform''"
    by code_simp
  have l: "(0::nat) < length [insulation_example]" by simp
  from index_insulated_from_mutation [OF l i c, of "''src/main.py''"] i c s
  show ?thesis by simp
qed

end
